theory Spec2Isabelle
  imports Main "HOL-Library.Word"
begin

section \<open>Strings\<close>

text \<open>
  A JavaScript string is modelled as a \<^typ>\<open>string\<close>: a list of code units, restricted to
  the code units below 256. All the literals of the source are in that range. The strings
  of \<^verbatim>\<open>generatePublishedUrl\<close> are not restricted: they are lists of 16-bit code units.
\<close>

text \<open>
  White space as \<^verbatim>\<open>\s\<close> and \<^verbatim>\<open>trim()\<close> see it, among the code units below 256:
  TAB, LF, VT, FF, CR, SPACE and NBSP.
\<close>

definition is_space :: "char \<Rightarrow> bool" where
  "is_space c = (c = CHR 0x09 \<or> c = CHR 0x0A \<or> c = CHR 0x0B \<or> c = CHR 0x0C
     \<or> c = CHR 0x0D \<or> c = CHR 0x20 \<or> c = CHR 0xA0)"

definition trim :: "string \<Rightarrow> string" where
  "trim s = rev (dropWhile is_space (rev (dropWhile is_space s)))"

text \<open>\<^verbatim>\<open>s.startsWith(p)\<close>, \<^verbatim>\<open>s.endsWith(p)\<close> and \<^verbatim>\<open>s.includes(p)\<close>.\<close>

definition startsWith :: "string \<Rightarrow> string \<Rightarrow> bool" where
  "startsWith s p = (take (length p) s = p)"

definition endsWith :: "string \<Rightarrow> string \<Rightarrow> bool" where
  "endsWith s p = startsWith (rev s) (rev p)"

fun includes_str :: "string \<Rightarrow> string \<Rightarrow> bool" where
  "includes_str [] p = (p = [])"
| "includes_str (c # cs) p = (startsWith (c # cs) p \<or> includes_str cs p)"

text \<open>
  \<^verbatim>\<open>regex.test(s)\<close> for a regular expression without flags \<^verbatim>\<open>g\<close> and \<^verbatim>\<open>y\<close>: the
  pattern, given as a matcher anchored at the start of its argument, is tried at every
  position of \<open>s\<close> from left to right.
\<close>

fun test_at_some_position :: "(string \<Rightarrow> bool) \<Rightarrow> string \<Rightarrow> bool" where
  "test_at_some_position P [] = P []"
| "test_at_some_position P (c # cs) = (P (c # cs) \<or> test_at_some_position P cs)"

text \<open>
  Equality of two code units under the flag \<^verbatim>\<open>i\<close>: both have the same upper-case form.
  Below 256 only the letters \<^verbatim>\<open>a\<close> to \<^verbatim>\<open>z\<close> have an upper-case form that is a letter
  of a pattern of the source.
\<close>

definition ci_eq :: "char \<Rightarrow> char \<Rightarrow> bool" where
  "ci_eq a b =
     (let x = (of_char a :: nat); y = (of_char b :: nat)
      in x = y \<or> (97 \<le> x \<and> x \<le> 122 \<and> y + 32 = x) \<or> (97 \<le> y \<and> y \<le> 122 \<and> x + 32 = y))"

text \<open>A literal of a pattern with the flag \<^verbatim>\<open>i\<close>, matched at the start: the rest after it.\<close>

fun ci_literal :: "string \<Rightarrow> string \<Rightarrow> string option" where
  "ci_literal [] s = Some s"
| "ci_literal (p # ps) [] = None"
| "ci_literal (p # ps) (c # cs) = (if ci_eq p c then ci_literal ps cs else None)"

subsection \<open>The bracket-link pattern\<close>

text \<open>
  Both link scanners of the source share the pattern
  \<^verbatim>\<open>\[\[([^\]|]+)(?:\|([^\]]+))?\]\]\<close>. \<open>match_link s\<close> matches it at the start of \<open>s\<close>
  and returns the first group, the second group when it took part, and the rest of \<open>s\<close>
  after the match. Both character classes are negated classes followed by a character
  outside the class, so the greedy run is the only candidate and backtracking into it
  cannot succeed.
\<close>

definition link_char :: "char \<Rightarrow> bool" where
  "link_char c = (c \<noteq> CHR '']'' \<and> c \<noteq> CHR ''|'')"

definition text_char :: "char \<Rightarrow> bool" where
  "text_char c = (c \<noteq> CHR '']'')"

definition match_link :: "string \<Rightarrow> (string \<times> string option \<times> string) option" where
  "match_link s =
     (if \<not> startsWith s ''[['' then None
      else if takeWhile link_char (drop 2 s) = [] then None
      else if startsWith (dropWhile link_char (drop 2 s)) '']]''
        then Some (takeWhile link_char (drop 2 s), None, drop 2 (dropWhile link_char (drop 2 s)))
      else if \<not> startsWith (dropWhile link_char (drop 2 s)) ''|'' then None
      else if takeWhile text_char (drop 1 (dropWhile link_char (drop 2 s))) = [] then None
      else if startsWith (dropWhile text_char (drop 1 (dropWhile link_char (drop 2 s)))) '']]''
        then Some (takeWhile link_char (drop 2 s),
                   Some (takeWhile text_char (drop 1 (dropWhile link_char (drop 2 s)))),
                   drop 2 (dropWhile text_char (drop 1 (dropWhile link_char (drop 2 s)))))
      else None)"

lemma match_link_shorter:
  assumes "match_link s = Some (g, d, r)"
  shows "length r < length s"
proof -
  have a: "length (dropWhile P xs) \<le> length xs" for P and xs :: string
    by (induction xs) auto
  have b: "startsWith xs p \<Longrightarrow> p \<noteq> [] \<Longrightarrow> xs \<noteq> []" for xs p
    by (auto simp: startsWith_def)
  from assms have s: "startsWith s ''[[''"
    by (auto simp: match_link_def split: if_splits)
  then have l2: "2 \<le> length s"
    by (cases s; cases "tl s") (auto simp: startsWith_def)
  let ?r1 = "dropWhile link_char (drop 2 s)"
  have l1: "length ?r1 \<le> length s - 2"
    using a [of link_char "drop 2 s"] by simp
  let ?r2 = "dropWhile text_char (drop 1 ?r1)"
  have l3: "length ?r2 \<le> length s - 2"
    using a [of text_char "drop 1 ?r1"] l1 by simp
  from assms have "r = drop 2 ?r1 \<or> r = drop 2 ?r2"
    by (auto simp: match_link_def split: if_splits)
  then show ?thesis
    using l1 l2 l3 by auto
qed

text \<open>
  The loop \<^verbatim>\<open>while ((match = wikilinkRegex.exec(content)) !== null)\<close> of a pattern with
  the flag \<^verbatim>\<open>g\<close>, and \<^verbatim>\<open>content.matchAll\<close>: the matches from left to right, each search
  starting where the last match ended; a position where the pattern fails is passed by
  one code unit. A match is never empty.
\<close>

function scan_links :: "string \<Rightarrow> (string \<times> string option) list" where
  "scan_links s =
     (if s = [] then []
      else case match_link s of
             Some (g, d, r) \<Rightarrow> (g, d) # scan_links r
           | None \<Rightarrow> scan_links (tl s))"
  by pat_completeness auto
termination
  by (relation "measure length") (auto simp: match_link_shorter)

declare scan_links.simps [simp del]

section \<open>Data model\<close>

text \<open>
  \<^verbatim>\<open>TFile\<close> of the host application, with the fields the source reads. \<open>parent\<close> is the
  path of the parent folder, \<open>None\<close> when \<^verbatim>\<open>file.parent\<close> is null.
\<close>

record TFile =
  path :: string
  name :: string
  basename :: string
  extension :: string
  parent :: "string option"

text \<open>\<^verbatim>\<open>NSPublishSettings\<close>, \<^verbatim>\<open>PublishOptions\<close> and \<^verbatim>\<open>PublishResult\<close> of \<^verbatim>\<open>types.ts\<close>.\<close>

record NSPublishSettings =
  targetFolderPath :: string
  includeLinkedNotes :: bool
  maxDepth :: nat
  excludePatterns :: "string list"
  preserveFolderStructure :: bool
  addPublishPrefix :: bool
  publishPrefix :: string
  baseUrl :: string

text \<open>
  The two optional fields of \<^verbatim>\<open>PublishOptions\<close> are \<open>None\<close> when absent. Their names
  carry a prefix, since the settings have fields of the same names.
\<close>

record PublishOptions =
  includeLinked :: bool
  opt_maxDepth :: "nat option"
  opt_excludePatterns :: "string list option"

record PublishResult =
  publishedFiles :: "string set"
  skippedFiles :: "string set"
  errors :: "string list"

text \<open>
  The calls to the storage gateway that the publish walk makes, in the order it makes them:
  \<^item> \<open>ReadSource p\<close>: \<^verbatim>\<open>vault.read(file)\<close> at the start of \<^verbatim>\<open>copyFileToTarget\<close>, for the
    source path \<open>p\<close>;
  \<^item> \<open>WriteCopy t\<close>: \<^verbatim>\<open>ensureTargetFolderExists\<close> and \<^verbatim>\<open>vault.modify\<close> or
    \<^verbatim>\<open>vault.create\<close> at the target path \<open>t\<close>;
  \<^item> \<open>RewriteCopy t\<close>: \<^verbatim>\<open>processExcalidrawContent\<close> on the copy at \<open>t\<close>;
  \<^item> \<open>ReadLinks p\<close>: \<^verbatim>\<open>vault.read(file)\<close> in \<^verbatim>\<open>getLinkedFiles\<close>.
  The cached reads of the link targets in \<^verbatim>\<open>isExcalidrawFile\<close>, which follow
  \<open>ReadLinks p\<close>, are not recorded.
\<close>

datatype storage_op =
  ReadSource string
| WriteCopy string
| RewriteCopy string
| ReadLinks string

text \<open>
  The traversal context of one walk: the result under construction, the sets \<^verbatim>\<open>visited\<close>
  and \<^verbatim>\<open>processing\<close>, which the source passes by reference through the recursion, and
  the storage calls made so far.
\<close>

record walk_state = PublishResult +
  visited :: "string set"
  processing :: "string set"
  storage_log :: "storage_op list"

text \<open>
  The collaborators of the host application, fixed during one publish call: the
  documents read by the walk and the link resolver do not change while copies are written.
  \<^item> \<open>vault_read p\<close>: \<^verbatim>\<open>app.vault.read\<close> of the file at path \<open>p\<close>: its content, or \<open>Inl\<close>
    the message of the error it throws;
  \<^item> \<open>vault_cachedRead p\<close>: \<^verbatim>\<open>app.vault.cachedRead\<close>, likewise;
  \<^item> \<open>write_target t c\<close>: creating the folders of the target path \<open>t\<close> and writing the
    content \<open>c\<close> there (\<^verbatim>\<open>modify\<close> or \<^verbatim>\<open>create\<close>): \<open>Some\<close> the message of the error
    thrown, \<open>None\<close> on success;
  \<^item> \<open>getFirstLinkpathDest t p\<close>: the resolver of \<^verbatim>\<open>app.metadataCache\<close>;
  \<^item> \<open>RegExp p\<close>: \<^verbatim>\<open>new RegExp(p)\<close>: \<open>None\<close> when the constructor throws, otherwise
    \<open>Some\<close> the \<^verbatim>\<open>test\<close> of the regular expression;
  \<^item> \<open>LZString_decompressFromBase64 c\<close>: the function of that name of the library
    \<^verbatim>\<open>lz-string\<close>: \<open>None\<close> when it returns null or throws;
  \<^item> \<open>exportToBlob json content\<close>: \<^verbatim>\<open>JSON.parse\<close> of the decompressed text \<open>json\<close> of a
    drawing and \<^verbatim>\<open>exportToBlob\<close> of its elements, with the embedded files that
    \<^verbatim>\<open>getExcalidrawEmbeddedFiles\<close> collects from the content of the drawing: the image, or
    \<open>None\<close> when \<^verbatim>\<open>JSON.parse\<close> or \<^verbatim>\<open>exportToBlob\<close> throws or the blob is null.
\<close>

record world =
  vault_read :: "string \<Rightarrow> string + string"
  vault_cachedRead :: "string \<Rightarrow> string + string"
  write_target :: "string \<Rightarrow> string \<Rightarrow> string option"
  getFirstLinkpathDest :: "string \<Rightarrow> string \<Rightarrow> TFile option"
  RegExp :: "string \<Rightarrow> (string \<Rightarrow> bool) option"
  LZString_decompressFromBase64 :: "string \<Rightarrow> string option"
  exportToBlob :: "string \<Rightarrow> string \<Rightarrow> string option"

section \<open>Link extraction and exclusion (WikilinkParser)\<close>

text \<open>
  \<^verbatim>\<open>isExcluded\<close>: \<^verbatim>\<open>excludePatterns.some(...)\<close>, each pattern compiled and tested, or
  searched as a substring when it does not compile.
\<close>

definition pattern_matches :: "world \<Rightarrow> string \<Rightarrow> string \<Rightarrow> bool" where
  "pattern_matches w linkText pattern =
     (case RegExp w pattern of
        Some regex_test \<Rightarrow> regex_test linkText
      | None \<Rightarrow> includes_str linkText pattern)"

definition isExcluded :: "world \<Rightarrow> NSPublishSettings \<Rightarrow> string \<Rightarrow> bool" where
  "isExcluded w s linkText = list_ex (pattern_matches w linkText) (excludePatterns s)"

text \<open>
  The front matter \<^verbatim>\<open>/^---\s*([\s\S]*?)\s*---/\<close>: the first group. After the opening
  \<^verbatim>\<open>---\<close> and the white space behind it, the lazy group is the shortest text followed by
  white space and \<^verbatim>\<open>---\<close>.
\<close>

fun frontmatter_body :: "string \<Rightarrow> string option" where
  "frontmatter_body [] = None"
| "frontmatter_body (c # cs) =
     (if startsWith (dropWhile is_space (c # cs)) ''---'' then Some []
      else map_option ((#) c) (frontmatter_body cs))"

definition frontmatterMatch :: "string \<Rightarrow> string option" where
  "frontmatterMatch fileContent =
     (if startsWith fileContent ''---''
      then frontmatter_body (dropWhile is_space (drop 3 fileContent))
      else None)"

text \<open>\<^verbatim>\<open>/excalidraw-plugin:\s*parsed/i\<close>, \<^verbatim>\<open>/excalidraw/i\<close> and \<^verbatim>\<open>/##?\s*Drawing/i\<close>.\<close>

definition hasExcalidrawPlugin :: "string \<Rightarrow> bool" where
  "hasExcalidrawPlugin frontmatter =
     test_at_some_position
       (\<lambda>t. case ci_literal ''excalidraw-plugin:'' t of
               None \<Rightarrow> False
             | Some r \<Rightarrow> ci_literal ''parsed'' (dropWhile is_space r) \<noteq> None)
       frontmatter"

definition hasExcalidrawInTags :: "string \<Rightarrow> bool" where
  "hasExcalidrawInTags frontmatter =
     test_at_some_position (\<lambda>t. ci_literal ''excalidraw'' t \<noteq> None) frontmatter"

definition hasDrawingSection :: "string \<Rightarrow> bool" where
  "hasDrawingSection fileContent =
     test_at_some_position
       (\<lambda>t. startsWith t ''#'' \<and>
          ((startsWith (drop 1 t) ''#'' \<and> ci_literal ''Drawing'' (dropWhile is_space (drop 2 t)) \<noteq> None)
           \<or> ci_literal ''Drawing'' (dropWhile is_space (drop 1 t)) \<noteq> None))
       fileContent"

text \<open>\<^verbatim>\<open>WikilinkParser.isExcalidrawFile(file, currentFile)\<close>; a failed read gives false.\<close>

definition isExcalidrawFile :: "world \<Rightarrow> TFile \<Rightarrow> TFile \<Rightarrow> bool" where
  "isExcalidrawFile w file currentFile =
     (case vault_cachedRead w (path file) of
        Inl e \<Rightarrow> False
      | Inr fileContent \<Rightarrow>
          (case frontmatterMatch fileContent of
             None \<Rightarrow> extension file = ''excalidraw'' \<or> endsWith (name file) ''.excalidraw''
           | Some frontmatter \<Rightarrow>
               hasExcalidrawPlugin frontmatter
               \<or> (hasExcalidrawInTags frontmatter \<and> hasDrawingSection fileContent)
               \<or> extension file = ''excalidraw''))"

text \<open>
  The body of the loop of \<^verbatim>\<open>getLinkedFiles\<close> for one trimmed link text: the file pushed
  onto \<^verbatim>\<open>linkedFiles\<close>, or \<open>None\<close> when the link is passed over.
\<close>

definition followLink :: "world \<Rightarrow> NSPublishSettings \<Rightarrow> TFile \<Rightarrow> string \<Rightarrow> TFile option" where
  "followLink w s file linkText =
     (if isExcluded w s linkText then None
      else case getFirstLinkpathDest w linkText (path file) of
             None \<Rightarrow> None
           | Some target \<Rightarrow>
               if extension target = ''md''
               then (if isExcalidrawFile w target file then None else Some target)
               else None)"

text \<open>The link texts of a content: \<^verbatim>\<open>match[1].trim()\<close> of every match, in order.\<close>

definition linkTexts :: "string \<Rightarrow> string list" where
  "linkTexts content = map (\<lambda>m. trim (fst m)) (scan_links content)"

text \<open>\<^verbatim>\<open>getLinkedFiles\<close>; a failed read of the document gives the empty list.\<close>

definition getLinkedFiles :: "world \<Rightarrow> NSPublishSettings \<Rightarrow> TFile \<Rightarrow> TFile list" where
  "getLinkedFiles w s file =
     (case vault_read w (path file) of
        Inl e \<Rightarrow> []
      | Inr content \<Rightarrow> List.map_filter (followLink w s file) (linkTexts content))"

text \<open>
  \<^verbatim>\<open>getAllLinkedFilesRecursivelyHelper\<close>, the walk of the dry run, on its two sets
  \<^verbatim>\<open>visited\<close> and \<^verbatim>\<open>allLinkedFiles\<close>, with the loop over the linked files as a function of
  its own. A file at the bound returns before it is marked visited.
\<close>

function getAllLinkedFilesRecursivelyHelper ::
    "world \<Rightarrow> NSPublishSettings \<Rightarrow> TFile \<Rightarrow> nat \<Rightarrow> nat \<Rightarrow> string set \<times> TFile set
      \<Rightarrow> string set \<times> TFile set"
  and collectLinkedFiles ::
    "world \<Rightarrow> NSPublishSettings \<Rightarrow> TFile list \<Rightarrow> nat \<Rightarrow> nat \<Rightarrow> string set \<times> TFile set
      \<Rightarrow> string set \<times> TFile set"
where
  "getAllLinkedFilesRecursivelyHelper w s file maxDepth' currentDepth (visited', allLinkedFiles) =
     (if currentDepth \<ge> maxDepth' \<or> path file \<in> visited' then (visited', allLinkedFiles)
      else collectLinkedFiles w s (getLinkedFiles w s file) maxDepth' currentDepth
             (insert (path file) visited', allLinkedFiles))"
| "collectLinkedFiles w s [] maxDepth' currentDepth state = state"
| "collectLinkedFiles w s (linkedFile # linkedFiles) maxDepth' currentDepth (visited', allLinkedFiles) =
     collectLinkedFiles w s linkedFiles maxDepth' currentDepth
       (getAllLinkedFilesRecursivelyHelper w s linkedFile maxDepth' (currentDepth + 1)
          (visited', insert linkedFile allLinkedFiles))"
  by pat_completeness auto

termination
  by (relation "measures
        [\<lambda>x. case x of
                Inl (w, s, f, maxDepth', currentDepth, state) \<Rightarrow> 2 * (maxDepth' - currentDepth) + 1
              | Inr (w, s, fs, maxDepth', currentDepth, state) \<Rightarrow> max 2 (2 * (maxDepth' - currentDepth)),
         \<lambda>x. case x of
                Inl (w, s, f, maxDepth', currentDepth, state) \<Rightarrow> 0
              | Inr (w, s, fs, maxDepth', currentDepth, state) \<Rightarrow> length fs]")
     auto

declare getAllLinkedFilesRecursivelyHelper.simps [simp del]

text \<open>
  \<^verbatim>\<open>getAllLinkedFilesRecursively\<close>; \<^verbatim>\<open>getPublishingStats\<close> calls it with the bound of
  the settings and no visited path.
\<close>

definition getAllLinkedFilesRecursively ::
    "world \<Rightarrow> NSPublishSettings \<Rightarrow> TFile \<Rightarrow> nat \<Rightarrow> string set \<Rightarrow> TFile set" where
  "getAllLinkedFilesRecursively w s startFile maxDepth' visited' =
     snd (getAllLinkedFilesRecursivelyHelper w s startFile maxDepth' 0 (visited', {}))"

section \<open>Copying and the publish walk (NoteCopier)\<close>

text \<open>\<^verbatim>\<open>getTargetPath\<close>.\<close>

definition getTargetPath :: "NSPublishSettings \<Rightarrow> TFile \<Rightarrow> string" where
  "getTargetPath s file =
     (let fileName = (if addPublishPrefix s then publishPrefix s @ name file else name file);
          relativePath = (case parent file of Some p \<Rightarrow> p | None \<Rightarrow> [])
      in if preserveFolderStructure s
         then (if relativePath \<noteq> []
               then targetFolderPath s @ ''/'' @ relativePath @ ''/'' @ fileName
               else targetFolderPath s @ ''/'' @ fileName)
         else targetFolderPath s @ ''/'' @ fileName)"

text \<open>
  \<^verbatim>\<open>copyFileToTarget\<close>: the storage calls it makes and its outcome, \<open>Inl\<close> the message of
  the error it throws. \<^verbatim>\<open>processExcalidrawContent\<close> catches its own errors.
\<close>

definition copyFileToTarget :: "world \<Rightarrow> NSPublishSettings \<Rightarrow> TFile \<Rightarrow> storage_op list \<times> (string + unit)" where
  "copyFileToTarget w s file =
     (case vault_read w (path file) of
        Inl m \<Rightarrow> ([ReadSource (path file)], Inl (''Failed to copy '' @ path file @ '': '' @ m))
      | Inr content \<Rightarrow>
          (case write_target w (getTargetPath s file) content of
             Some m \<Rightarrow>
               ([ReadSource (path file), WriteCopy (getTargetPath s file)],
                Inl (''Failed to copy '' @ path file @ '': '' @ m))
           | None \<Rightarrow>
               ([ReadSource (path file), WriteCopy (getTargetPath s file),
                 RewriteCopy (getTargetPath s file)],
                Inr ())))"

text \<open>
  The steps of \<^verbatim>\<open>publishNoteRecursively\<close> on the traversal context: the entry into a
  node, the two outcomes of the copy, and the \<^verbatim>\<open>finally\<close> block.
\<close>

definition enter_node :: "string \<Rightarrow> walk_state \<Rightarrow> walk_state" where
  "enter_node filePath st = st\<lparr>processing := insert filePath (processing st)\<rparr>"

definition copy_succeeded :: "string \<Rightarrow> storage_op list \<Rightarrow> walk_state \<Rightarrow> walk_state" where
  "copy_succeeded filePath ops st =
     st\<lparr>publishedFiles := insert filePath (publishedFiles st),
        storage_log := storage_log st @ ops @ [ReadLinks filePath]\<rparr>"

definition copy_failed :: "string \<Rightarrow> storage_op list \<Rightarrow> string \<Rightarrow> walk_state \<Rightarrow> walk_state" where
  "copy_failed filePath ops message st =
     st\<lparr>errors := errors st @ [''Error processing '' @ filePath @ '': '' @ message],
        storage_log := storage_log st @ ops\<rparr>"

definition leave_node :: "string \<Rightarrow> walk_state \<Rightarrow> walk_state" where
  "leave_node filePath st =
     st\<lparr>processing := processing st - {filePath}, visited := insert filePath (visited st)\<rparr>"

text \<open>
  \<^verbatim>\<open>publishNoteRecursively\<close>, and its loop \<^verbatim>\<open>for (const linkedFile of linkedFiles)\<close> as
  \<open>publishLinkedFiles\<close>. The only statement of the \<^verbatim>\<open>try\<close> block that throws is
  \<^verbatim>\<open>copyFileToTarget\<close>: \<^verbatim>\<open>getLinkedFiles\<close> and the recursive calls catch their errors.
\<close>

function publishNoteRecursively ::
    "world \<Rightarrow> NSPublishSettings \<Rightarrow> TFile \<Rightarrow> walk_state \<Rightarrow> nat \<Rightarrow> nat \<Rightarrow> walk_state"
  and publishLinkedFiles ::
    "world \<Rightarrow> NSPublishSettings \<Rightarrow> TFile list \<Rightarrow> walk_state \<Rightarrow> nat \<Rightarrow> nat \<Rightarrow> walk_state"
where
  "publishNoteRecursively w s file st depth maxDepth' =
     (if path file \<in> visited st \<or> path file \<in> processing st then st
      else if depth > maxDepth' then st\<lparr>skippedFiles := insert (path file) (skippedFiles st)\<rparr>
      else
        leave_node (path file)
          (case copyFileToTarget w s file of
             (ops, Inl message) \<Rightarrow> copy_failed (path file) ops message (enter_node (path file) st)
           | (ops, Inr u) \<Rightarrow>
               publishLinkedFiles w s (getLinkedFiles w s file)
                 (copy_succeeded (path file) ops (enter_node (path file) st))
                 (depth + 1) maxDepth'))"
| "publishLinkedFiles w s [] st depth maxDepth' = st"
| "publishLinkedFiles w s (linkedFile # linkedFiles) st depth maxDepth' =
     publishLinkedFiles w s linkedFiles
       (publishNoteRecursively w s linkedFile st depth maxDepth') depth maxDepth'"
  by pat_completeness auto
termination
  by (relation "measures
        [(\<lambda>x. case x of Inl (w, s, file, st, depth, maxDepth') \<Rightarrow> 2 * (maxDepth' + 2 - depth)
                       | Inr (w, s, files, st, depth, maxDepth') \<Rightarrow> 2 * (maxDepth' + 2 - depth) + 1),
         (\<lambda>x. case x of Inl (w, s, file, st, depth, maxDepth') \<Rightarrow> 0
                       | Inr (w, s, files, st, depth, maxDepth') \<Rightarrow> length files)]")
     auto

declare publishNoteRecursively.simps [simp del]

text \<open>
  \<^verbatim>\<open>publishNoteWithLinks\<close>: the bound is \<^verbatim>\<open>options.maxDepth || this.settings.maxDepth\<close>,
  where an absent and a zero \<^verbatim>\<open>options.maxDepth\<close> are both falsy; the walk starts at
  depth 0 with fresh sets \<^verbatim>\<open>visited\<close> and \<^verbatim>\<open>processing\<close>.
\<close>

definition effectiveMaxDepth :: "NSPublishSettings \<Rightarrow> PublishOptions \<Rightarrow> nat" where
  "effectiveMaxDepth s options =
     (case opt_maxDepth options of
        Some n \<Rightarrow> if n \<noteq> 0 then n else maxDepth s
      | None \<Rightarrow> maxDepth s)"

definition publishNoteWithLinks ::
    "world \<Rightarrow> NSPublishSettings \<Rightarrow> TFile \<Rightarrow> walk_state \<Rightarrow> PublishOptions \<Rightarrow> walk_state" where
  "publishNoteWithLinks w s file result options =
     publishNoteRecursively w s file (result\<lparr>visited := {}, processing := {}\<rparr>) 0
       (effectiveMaxDepth s options)"

text \<open>\<^verbatim>\<open>publishSingleNote\<close>.\<close>

definition publishSingleNote :: "world \<Rightarrow> NSPublishSettings \<Rightarrow> TFile \<Rightarrow> walk_state \<Rightarrow> walk_state" where
  "publishSingleNote w s file result =
     (case copyFileToTarget w s file of
        (ops, Inl message) \<Rightarrow>
          result\<lparr>errors := errors result @ [''Failed to copy '' @ path file @ '': '' @ message],
                 storage_log := storage_log result @ ops\<rparr>
      | (ops, Inr u) \<Rightarrow>
          result\<lparr>publishedFiles := insert (path file) (publishedFiles result),
                 storage_log := storage_log result @ ops\<rparr>)"

text \<open>
  \<^verbatim>\<open>validatePublishPrerequisites\<close>; the file is \<open>None\<close> when the caller passes null or
  undefined.
\<close>

record validation =
  isValid :: bool
  error :: "string option"

definition validatePublishPrerequisites :: "NSPublishSettings \<Rightarrow> TFile option \<Rightarrow> validation" where
  "validatePublishPrerequisites s file =
     (case file of
        None \<Rightarrow> \<lparr>isValid = False, error = Some ''No file provided''\<rparr>
      | Some f \<Rightarrow>
          if extension f \<noteq> ''md''
            then \<lparr>isValid = False, error = Some ''Can only publish markdown files''\<rparr>
          else if targetFolderPath s = []
            then \<lparr>isValid = False, error = Some ''Please configure target folder path in settings''\<rparr>
          else \<lparr>isValid = True, error = None\<rparr>)"

text \<open>\<^verbatim>\<open>isValidTargetPath\<close>; the code unit 0x5C is the backslash.\<close>

definition isValidTargetPath :: "string \<Rightarrow> bool" where
  "isValidTargetPath folderPath =
     (if folderPath = [] \<or> includes_str folderPath ''..'' \<or> includes_str folderPath [CHR 0x5C]
      then False
      else \<not> startsWith folderPath ''/'' \<and> \<not> includes_str folderPath '':'')"

subsection \<open>The published URL\<close>

text \<open>
  The strings of \<^verbatim>\<open>generatePublishedUrl\<close> are modelled in full: a string is the list of
  its UTF-16 code units. \<open>utf16\<close> gives the code units of a string of the other sections,
  whose code units are below 256.
\<close>

type_synonym ustring = "16 word list"

definition utf16 :: "string \<Rightarrow> ustring" where
  "utf16 s = map of_char s"

text \<open>
  White space as \<^verbatim>\<open>\s\<close> sees it: TAB, LF, VT, FF, CR, SPACE, NBSP, U+1680, U+2000 to
  U+200A, U+2028, U+2029, U+202F, U+205F, U+3000 and U+FEFF.
\<close>

definition isWhiteSpace :: "16 word \<Rightarrow> bool" where
  "isWhiteSpace u =
     (u = 0x09 \<or> u = 0x0A \<or> u = 0x0B \<or> u = 0x0C \<or> u = 0x0D \<or> u = 0x20 \<or> u = 0xA0
      \<or> u = 0x1680 \<or> (0x2000 \<le> u \<and> u \<le> 0x200A) \<or> u = 0x2028 \<or> u = 0x2029
      \<or> u = 0x202F \<or> u = 0x205F \<or> u = 0x3000 \<or> u = 0xFEFF)"

text \<open>\<^verbatim>\<open>s.split('/')\<close> and \<^verbatim>\<open>segments.join('/')\<close>, for a separator of one code unit.\<close>

fun split_on :: "'a \<Rightarrow> 'a list \<Rightarrow> 'a list list" where
  "split_on sep [] = [[]]"
| "split_on sep (c # cs) =
     (if c = sep then [] # split_on sep cs
      else case split_on sep cs of
             segment # segments \<Rightarrow> (c # segment) # segments
           | [] \<Rightarrow> [[c]])"

fun join_with :: "'a \<Rightarrow> 'a list list \<Rightarrow> 'a list" where
  "join_with sep [] = []"
| "join_with sep [segment] = segment"
| "join_with sep (segment # segments) = segment @ sep # join_with sep segments"

text \<open>
  \<^verbatim>\<open>originalPath.replace(/\.md$/, '')\<close>: without the flag \<^verbatim>\<open>m\<close> the pattern matches at
  the end of the string only.
\<close>

definition strip_md :: "ustring \<Rightarrow> ustring" where
  "strip_md p =
     (if 3 \<le> length p \<and> drop (length p - 3) p = utf16 ''.md'' then take (length p - 3) p else p)"

text \<open>
  \<^verbatim>\<open>segment.replace(/\s*&\s*/g, '--and--')\<close>: at a position where the white space run
  is followed by an ampersand the run, the ampersand and the white space behind it are
  replaced; elsewhere the code unit is kept.
\<close>

function replace_amp :: "ustring \<Rightarrow> ustring" where
  "replace_amp s =
     (if s = [] then []
      else case dropWhile isWhiteSpace s of
             u # rest \<Rightarrow>
               if u = 0x26 then utf16 ''--and--'' @ replace_amp (dropWhile isWhiteSpace rest)
               else hd s # replace_amp (tl s)
           | [] \<Rightarrow> hd s # replace_amp (tl s))"
  by pat_completeness auto
termination
proof (relation "measure length")
  show "wf (measure length)"
    by simp
next
  fix s u :: "16 word list" and x rest
  assume "s \<noteq> []" and d: "dropWhile isWhiteSpace s = x # rest"
  have "length (dropWhile isWhiteSpace rest) \<le> length rest"
    by (rule length_dropWhile_le)
  moreover have "length (x # rest) \<le> length s"
    unfolding d [symmetric] by (rule length_dropWhile_le)
  ultimately show "(dropWhile isWhiteSpace rest, s) \<in> measure length"
    by simp
next
  fix s :: "16 word list" and x rest
  assume "s \<noteq> []"
  then show "(tl s, s) \<in> measure length"
    by simp
next
  fix s :: "16 word list"
  assume "s \<noteq> []"
  then show "(tl s, s) \<in> measure length"
    by simp
qed

declare replace_amp.simps [simp del]

text \<open>\<^verbatim>\<open>.replace(/\s+/g, '-')\<close>: every maximal white space run becomes one hyphen.\<close>

function replace_ws :: "ustring \<Rightarrow> ustring" where
  "replace_ws [] = []"
| "replace_ws (c # cs) =
     (if isWhiteSpace c then 0x2D # replace_ws (dropWhile isWhiteSpace cs)
      else c # replace_ws cs)"
  by pat_completeness auto
termination
  by (relation "measure length") (auto simp: length_dropWhile_le less_Suc_eq_le)

text \<open>
  \<^verbatim>\<open>encodeURIComponent\<close>, as the language defines it (\<^verbatim>\<open>Encode\<close> with the unescaped set
  of the letters, the digits and the marks \<^verbatim>\<open>-_.!~*'()\<close>). A code unit of the unescaped
  set is kept. At any other code unit the code point is read (\<^verbatim>\<open>CodePointAt\<close>): a
  leading surrogate followed by a trailing one gives the code point of the pair, a
  surrogate without its partner makes the function throw \<^verbatim>\<open>URIError\<close>, any other code
  unit is its own code point. The code point is written as the octets of its UTF-8 form,
  each as \<^verbatim>\<open>%\<close> and two upper-case hexadecimal digits.
\<close>

datatype uri_error = URIError

definition uriUnescaped :: "16 word \<Rightarrow> bool" where
  "uriUnescaped u =
     ((0x41 \<le> u \<and> u \<le> 0x5A) \<or> (0x61 \<le> u \<and> u \<le> 0x7A) \<or> (0x30 \<le> u \<and> u \<le> 0x39)
      \<or> u = 0x2D \<or> u = 0x5F \<or> u = 0x2E \<or> u = 0x21 \<or> u = 0x7E \<or> u = 0x2A \<or> u = 0x27
      \<or> u = 0x28 \<or> u = 0x29)"

definition isLeadingSurrogate :: "16 word \<Rightarrow> bool" where
  "isLeadingSurrogate u = (0xD800 \<le> u \<and> u \<le> 0xDBFF)"

definition isTrailingSurrogate :: "16 word \<Rightarrow> bool" where
  "isTrailingSurrogate u = (0xDC00 \<le> u \<and> u \<le> 0xDFFF)"

definition UTF16SurrogatePairToCodePoint :: "16 word \<Rightarrow> 16 word \<Rightarrow> int" where
  "UTF16SurrogatePairToCodePoint lead trail =
     (uint lead - 0xD800) * 0x400 + (uint trail - 0xDC00) + 0x10000"

definition utf8 :: "int \<Rightarrow> int list" where
  "utf8 cp =
     (if cp < 0x80 then [cp]
      else if cp < 0x800 then [0xC0 + cp div 0x40, 0x80 + cp mod 0x40]
      else if cp < 0x10000
        then [0xE0 + cp div 0x1000, 0x80 + cp div 0x40 mod 0x40, 0x80 + cp mod 0x40]
      else [0xF0 + cp div 0x40000, 0x80 + cp div 0x1000 mod 0x40, 0x80 + cp div 0x40 mod 0x40,
            0x80 + cp mod 0x40])"

definition hex_digit :: "int \<Rightarrow> 16 word" where
  "hex_digit d = (if d < 10 then 0x30 + word_of_int d else 0x37 + word_of_int d)"

definition percent :: "int \<Rightarrow> ustring" where
  "percent octet = [0x25, hex_digit (octet div 16), hex_digit (octet mod 16)]"

fun encodeURIComponent :: "ustring \<Rightarrow> uri_error + ustring" where
  "encodeURIComponent [] = Inr []"
| "encodeURIComponent (C # rest) =
     (if uriUnescaped C then map_sum id (\<lambda>R. C # R) (encodeURIComponent rest)
      else if \<not> isLeadingSurrogate C \<and> \<not> isTrailingSurrogate C
        then map_sum id (\<lambda>R. concat (map percent (utf8 (uint C))) @ R) (encodeURIComponent rest)
      else if isTrailingSurrogate C then Inl URIError
      else case rest of
             [] \<Rightarrow> Inl URIError
           | second # rest' \<Rightarrow>
               if \<not> isTrailingSurrogate second then Inl URIError
               else map_sum id
                      (\<lambda>R. concat (map percent (utf8 (UTF16SurrogatePairToCodePoint C second))) @ R)
                      (encodeURIComponent rest'))"

text \<open>
  \<^verbatim>\<open>segments.map(segment => encodeURIComponent(segment))\<close>: the first segment that
  throws ends the call.
\<close>

fun map_encodeURIComponent :: "ustring list \<Rightarrow> uri_error + ustring list" where
  "map_encodeURIComponent [] = Inr []"
| "map_encodeURIComponent (segment # segments) =
     (case encodeURIComponent segment of
        Inl e \<Rightarrow> Inl e
      | Inr encoded \<Rightarrow> map_sum id (\<lambda>rest. encoded # rest) (map_encodeURIComponent segments))"

text \<open>
  \<^verbatim>\<open>generatePublishedUrl\<close>, on the two strings it reads, the base URL of the settings and
  the path of the file: \<open>Inl\<close> the error it throws, \<open>Inr None\<close> when it returns null.
\<close>

definition generatePublishedUrl :: "ustring \<Rightarrow> ustring \<Rightarrow> uri_error + ustring option" where
  "generatePublishedUrl baseUrl' originalPath =
     (if baseUrl' = [] then Inr None
      else
        let pathWithoutExtension = strip_md originalPath;
            urlFriendlyPath =
              join_with 0x2F
                (map (\<lambda>segment. replace_ws (replace_amp segment))
                   (split_on 0x2F pathWithoutExtension))
        in case map_encodeURIComponent (split_on 0x2F urlFriendlyPath) of
             Inl e \<Rightarrow> Inl e
           | Inr encodedSegments \<Rightarrow>
               Inr (Some (baseUrl' @ utf16 ''/'' @ join_with 0x2F encodedSegments)))"

text \<open>
  The URL of a file of the other sections, as \<^verbatim>\<open>publishNote\<close> computes it for the clipboard.
  The base URL and the path have code units below 256 there, so that the call does not
  throw and the URL has code units below 256 as well.
\<close>

definition latin1 :: "ustring \<Rightarrow> string" where
  "latin1 us = map (\<lambda>u. char_of (uint u)) us"

definition publishedUrl :: "NSPublishSettings \<Rightarrow> TFile \<Rightarrow> string option" where
  "publishedUrl s file =
     (case generatePublishedUrl (utf16 (baseUrl s)) (utf16 (path file)) of
        Inr url \<Rightarrow> map_option latin1 url
      | Inl e \<Rightarrow> None)"

subsection \<open>The public URL of the specification\<close>

text \<open>
  The public URL as the specification words it, each step on its own terms. A trailing
  \<^verbatim>\<open>.md\<close> is taken off the source path; the path is cut at every \<^verbatim>\<open>/\<close>; a segment is read
  as a sequence of maximal white space runs and other code units, in which an ampersand
  together with the runs next to it becomes the token \<^verbatim>\<open>--and--\<close> and every run that is
  left becomes a hyphen; a segment is percent-encoded character by character: an
  unreserved character stays, any other is written as the octets of its UTF-8 form, each
  as \<^verbatim>\<open>%\<close> and two hexadecimal digits. A segment with a surrogate that has no partner is
  no sequence of characters and has no percent-encoding.
\<close>

definition without_md :: "ustring \<Rightarrow> ustring" where
  "without_md sourcePath =
     (case rev sourcePath of
        d # m # dot # front \<Rightarrow>
          if dot = 0x2E \<and> m = 0x6D \<and> d = 0x64 then rev front else sourcePath
      | _ \<Rightarrow> sourcePath)"

function segments_of :: "ustring \<Rightarrow> ustring list" where
  "segments_of p =
     (case dropWhile (\<lambda>u. u \<noteq> 0x2F) p of
        [] \<Rightarrow> [p]
      | slash # rest \<Rightarrow> takeWhile (\<lambda>u. u \<noteq> 0x2F) p # segments_of rest)"
  by pat_completeness auto
termination
proof (relation "measure length")
  show "wf (measure length)"
    by simp
next
  fix p :: ustring and slash rest
  assume "dropWhile (\<lambda>u. u \<noteq> 0x2F) p = slash # rest"
  then have "length (slash # rest) \<le> length p"
    by (metis length_dropWhile_le)
  then show "(rest, p) \<in> measure length"
    by simp
qed

declare segments_of.simps [simp del]

datatype piece = Blank | Unit "16 word" | AndToken

function pieces :: "ustring \<Rightarrow> piece list" where
  "pieces [] = []"
| "pieces (u # us) =
     (if isWhiteSpace u then Blank # pieces (dropWhile isWhiteSpace us) else Unit u # pieces us)"
  by pat_completeness auto
termination
  by (relation "measure length") (auto simp: length_dropWhile_le less_Suc_eq_le)

fun after_blank :: "piece list \<Rightarrow> piece list" where
  "after_blank (Blank # ps) = ps"
| "after_blank ps = ps"

function and_tokens :: "piece list \<Rightarrow> piece list" where
  "and_tokens [] = []"
| "and_tokens (Unit u # ps) =
     (if u = 0x26 then AndToken # and_tokens (after_blank ps) else Unit u # and_tokens ps)"
| "and_tokens (Blank # Unit u # ps) =
     (if u = 0x26 then AndToken # and_tokens (after_blank ps) else Blank # Unit u # and_tokens ps)"
| "and_tokens [Blank] = [Blank]"
| "and_tokens (Blank # Blank # ps) = Blank # and_tokens (Blank # ps)"
| "and_tokens (Blank # AndToken # ps) = Blank # AndToken # and_tokens ps"
| "and_tokens (AndToken # ps) = AndToken # and_tokens ps"
  by pat_completeness auto
termination
proof (relation "measure length")
  fix ps :: "piece list"
  have "length (after_blank ps) \<le> length ps" for ps
    by (cases ps rule: after_blank.cases) simp_all
  then show "\<And>u ps. u = 0x26 \<Longrightarrow> (after_blank ps, Unit u # ps) \<in> measure length"
    and "\<And>u ps. u = 0x26 \<Longrightarrow> (after_blank ps, Blank # Unit u # ps) \<in> measure length"
    by (simp_all add: less_Suc_eq_le le_SucI)
qed simp_all

fun piece_text :: "piece \<Rightarrow> ustring" where
  "piece_text Blank = utf16 ''-''"
| "piece_text (Unit u) = [u]"
| "piece_text AndToken = utf16 ''--and--''"

definition url_friendly :: "ustring \<Rightarrow> ustring" where
  "url_friendly segment = concat (map piece_text (and_tokens (pieces segment)))"

fun characters :: "ustring \<Rightarrow> int list option" where
  "characters [] = Some []"
| "characters [u] =
     (if isLeadingSurrogate u \<or> isTrailingSurrogate u then None else Some [uint u])"
| "characters (u # v # us) =
     (if isLeadingSurrogate u \<and> isTrailingSurrogate v
        then map_option (\<lambda>cs. (0x10000 + (uint u - 0xD800) * 0x400 + (uint v - 0xDC00)) # cs)
               (characters us)
      else if isLeadingSurrogate u \<or> isTrailingSurrogate u then None
      else map_option (\<lambda>cs. uint u # cs) (characters (v # us)))"

definition unreserved :: "int \<Rightarrow> bool" where
  "unreserved c =
     ((of_char CHR ''A'' \<le> c \<and> c \<le> of_char CHR ''Z'')
      \<or> (of_char CHR ''a'' \<le> c \<and> c \<le> of_char CHR ''z'')
      \<or> (of_char CHR ''0'' \<le> c \<and> c \<le> of_char CHR ''9'')
      \<or> c \<in> set (map of_char ''-_.!~*()'') \<or> c = 0x27)"

definition percent_encoded_character :: "int \<Rightarrow> ustring" where
  "percent_encoded_character c =
     (if unreserved c then [word_of_int c] else concat (map percent (utf8 c)))"

definition percent_encoded :: "ustring \<Rightarrow> ustring option" where
  "percent_encoded segment =
     map_option (\<lambda>cs. concat (map percent_encoded_character cs)) (characters segment)"

definition publicUrl :: "ustring \<Rightarrow> ustring \<Rightarrow> uri_error + ustring option" where
  "publicUrl baseUrl' sourcePath =
     (if baseUrl' = [] then Inr None
      else case those (map (\<lambda>segment. percent_encoded (url_friendly segment))
                         (segments_of (without_md sourcePath))) of
             None \<Rightarrow> Inl URIError
           | Some encoded \<Rightarrow> Inr (Some (baseUrl' @ utf16 ''/'' @ join_with 0x2F encoded)))"

subsection \<open>The top-level call\<close>

text \<open>
  What one call of \<^verbatim>\<open>publishNote\<close> leaves behind: the result it returns, the storage
  calls it made, and the text it wrote to the clipboard, if any.
\<close>

record publish_report =
  report_result :: PublishResult
  report_storage :: "storage_op list"
  report_clipboard :: "string option"

definition new_result :: walk_state where
  "new_result =
     \<lparr>publishedFiles = {}, skippedFiles = {}, errors = [],
      visited = {}, processing = {}, storage_log = []\<rparr>"

definition result_of :: "walk_state \<Rightarrow> PublishResult" where
  "result_of st =
     \<lparr>publishedFiles = publishedFiles st, skippedFiles = skippedFiles st, errors = errors st\<rparr>"

text \<open>
  \<^verbatim>\<open>publishNote\<close>. Nothing inside its \<^verbatim>\<open>try\<close> block throws, since both publish
  functions catch the errors of the copy. The clipboard is written when a file was
  published and a URL was generated.
\<close>

definition publishNote ::
    "world \<Rightarrow> NSPublishSettings \<Rightarrow> TFile option \<Rightarrow> PublishOptions \<Rightarrow> publish_report" where
  "publishNote w s file options =
     (case (isValid (validatePublishPrerequisites s file), file) of
        (True, Some f) \<Rightarrow>
          (let result =
                 (if includeLinked options then publishNoteWithLinks w s f new_result options
                  else publishSingleNote w s f new_result)
           in \<lparr>report_result = result_of result,
               report_storage = storage_log result,
               report_clipboard =
                 (if publishedFiles result \<noteq> {} then publishedUrl s f else None)\<rparr>)
      | _ \<Rightarrow>
          \<lparr>report_result =
              \<lparr>publishedFiles = {}, skippedFiles = {},
               errors = [case error (validatePublishPrerequisites s file) of
                           Some e \<Rightarrow> if e = [] then ''Unknown validation error'' else e
                         | None \<Rightarrow> ''Unknown validation error'']\<rparr>,
            report_storage = [],
            report_clipboard = None\<rparr>)"

section \<open>The content rewrite pass (ExcalidrawUtil)\<close>

text \<open>
  The pattern \<^verbatim>\<open>/(!?\[\[([^|\]]+)(?:\|([^\]]+))?\]\])/g\<close> of \<^verbatim>\<open>processNoteContent\<close>,
  matched at the start of \<open>s\<close>: the whole match, the file name, the display text when
  there is one, and the rest of \<open>s\<close>. An exclamation mark that no link follows starts no
  match.
\<close>

definition match_embed :: "string \<Rightarrow> (string \<times> string \<times> string option \<times> string) option" where
  "match_embed s =
     (case match_link (if startsWith s ''!'' then drop 1 s else s) of
        None \<Rightarrow> None
      | Some (fileName, displayText, r) \<Rightarrow>
          Some (take (length s - length r) s, fileName, displayText, r))"

lemma match_embed_shorter:
  assumes "match_embed s = Some (m, g, d, r)"
  shows "length r < length s"
proof -
  from assms obtain g' d' where "match_link (if startsWith s ''!'' then drop 1 s else s) = Some (g', d', r)"
    by (auto simp: match_embed_def split: option.splits)
  then have "length r < length (if startsWith s ''!'' then drop 1 s else s)"
    by (rule match_link_shorter)
  then show ?thesis
    by (auto split: if_splits)
qed

text \<open>\<^verbatim>\<open>Array.from(content.matchAll(wikilinkRegex))\<close>.\<close>

function scan_embeds :: "string \<Rightarrow> (string \<times> string \<times> string option) list" where
  "scan_embeds s =
     (if s = [] then []
      else case match_embed s of
             Some (fullMatch, fileName, displayText, r) \<Rightarrow>
               (fullMatch, fileName, displayText) # scan_embeds r
           | None \<Rightarrow> scan_embeds (tl s))"
  by pat_completeness auto
termination
  by (relation "measure length") (auto simp: match_embed_shorter)

declare scan_embeds.simps [simp del]

text \<open>
  \<^verbatim>\<open>GetSubstitution\<close> of the language for a search string: in the replacement text
  \<^verbatim>\<open>$$\<close> stands for a dollar sign, \<^verbatim>\<open>$&\<close> for the matched text, a dollar sign with a
  backquote (code unit 0x60) for the text before the match and a dollar sign with an
  apostrophe (code unit 0x27) for the text behind it. There are no captures, so every
  other dollar sign stands for itself.
\<close>

fun get_substitution :: "string \<Rightarrow> string \<Rightarrow> string \<Rightarrow> string \<Rightarrow> string" where
  "get_substitution matched front back [] = []"
| "get_substitution matched front back [c] = [c]"
| "get_substitution matched front back (c # d # r) =
     (if c \<noteq> CHR ''$'' then c # get_substitution matched front back (d # r)
      else if d = CHR ''$'' then CHR ''$'' # get_substitution matched front back r
      else if d = CHR ''&'' then matched @ get_substitution matched front back r
      else if d = CHR 0x60 then front @ get_substitution matched front back r
      else if d = CHR 0x27 then back @ get_substitution matched front back r
      else c # get_substitution matched front back (d # r))"

text \<open>The text before and behind the first occurrence of \<open>p\<close> in \<open>s\<close>.\<close>

fun find_first :: "string \<Rightarrow> string \<Rightarrow> (string \<times> string) option" where
  "find_first [] p = (if p = [] then Some ([], []) else None)"
| "find_first (c # cs) p =
     (if startsWith (c # cs) p then Some ([], drop (length p) (c # cs))
      else map_option (\<lambda>(front, back). (c # front, back)) (find_first cs p))"

text \<open>\<^verbatim>\<open>s.replace(searchValue, replaceValue)\<close> for two strings: the first occurrence only.\<close>

definition replace_first :: "string \<Rightarrow> string \<Rightarrow> string \<Rightarrow> string" where
  "replace_first s searchValue replaceValue =
     (case find_first s searchValue of
        None \<Rightarrow> s
      | Some (front, back) \<Rightarrow>
          front @ get_substitution searchValue front back replaceValue @ back)"

text \<open>
  \<^verbatim>\<open>ExcalidrawUtil.isExcalidrawFile(fileName, currentFile)\<close>; without front matter it
  looks at the end of the link text, not of the name of the file.
\<close>

definition util_isExcalidrawFile :: "world \<Rightarrow> string \<Rightarrow> TFile \<Rightarrow> bool" where
  "util_isExcalidrawFile w fileName currentFile =
     (case getFirstLinkpathDest w fileName (path currentFile) of
        None \<Rightarrow> False
      | Some f \<Rightarrow>
          (case vault_cachedRead w (path f) of
             Inl e \<Rightarrow> False
           | Inr fileContent \<Rightarrow>
               (case frontmatterMatch fileContent of
                  None \<Rightarrow> extension f = ''excalidraw'' \<or> endsWith fileName ''.excalidraw''
                | Some frontmatter \<Rightarrow>
                    hasExcalidrawPlugin frontmatter
                    \<or> (hasExcalidrawInTags frontmatter \<and> hasDrawingSection fileContent)
                    \<or> extension f = ''excalidraw'')))"

text \<open>
  The two patterns of \<^verbatim>\<open>decompressExcalidrawContent\<close>. Both begin with a line feed, one or
  two number signs and the text \<^verbatim>\<open> Drawing\<close> with a line feed. \<open>backticks\<close> are the three
  code units 0x60 of a fence.
\<close>

definition backticks :: string where
  "backticks = [CHR 0x60, CHR 0x60, CHR 0x60]"

definition after :: "string \<Rightarrow> string \<Rightarrow> string option" where
  "after literal t = (if startsWith t literal then Some (drop (length literal) t) else None)"

definition drawing_header :: "string \<Rightarrow> string option" where
  "drawing_header t =
     (case after [CHR 0x0A, CHR ''#''] t of
        None \<Rightarrow> None
      | Some r \<Rightarrow>
          (case after (''# Drawing'' @ [CHR 0x0A]) r of
             Some r' \<Rightarrow> Some r'
           | None \<Rightarrow> after ('' Drawing'' @ [CHR 0x0A]) r))"

text \<open>
  \<^verbatim>\<open>DRAWING_COMPRESSED_REG\<close> at the start of \<open>t\<close>: its second group. The class without
  backtick runs up to the first backtick, where the fence line of \<^verbatim>\<open>compressed-json\<close> has
  to begin; the lazy group ends before the first closing fence with a line feed.
\<close>

definition drawing_compressed_at :: "string \<Rightarrow> string option" where
  "drawing_compressed_at t =
     (case drawing_header t of
        None \<Rightarrow> None
      | Some r \<Rightarrow>
          (case after (backticks @ ''compressed-json'' @ [CHR 0x0A])
                  (dropWhile (\<lambda>c. c \<noteq> CHR 0x60) r) of
             None \<Rightarrow> None
           | Some body \<Rightarrow> map_option fst (find_first body (backticks @ [CHR 0x0A]))))"

text \<open>
  \<^verbatim>\<open>DRAWING_COMPRESSED_REG_FALLBACK\<close> at the start of \<open>t\<close>: its second group, the rest of
  the line behind the header and the fence line, if there is one. The dot matches no line
  feed and no carriage return, and what follows the group may be empty.
\<close>

definition drawing_fallback_at :: "string \<Rightarrow> string option" where
  "drawing_fallback_at t =
     (case drawing_header t of
        None \<Rightarrow> None
      | Some r \<Rightarrow>
          Some (takeWhile (\<lambda>c. c \<noteq> CHR 0x0A \<and> c \<noteq> CHR 0x0D)
                  (case after (backticks @ ''compressed-json'' @ [CHR 0x0A]) r of
                     Some r' \<Rightarrow> r'
                   | None \<Rightarrow> r)))"

text \<open>\<^verbatim>\<open>content.matchAll(pattern).next()\<close>: the match at the leftmost position that has one.\<close>

fun first_match :: "(string \<Rightarrow> 'a option) \<Rightarrow> string \<Rightarrow> 'a option" where
  "first_match pattern_at [] = pattern_at []"
| "first_match pattern_at (c # cs) =
     (case pattern_at (c # cs) of
        Some m \<Rightarrow> Some m
      | None \<Rightarrow> first_match pattern_at cs)"

text \<open>
  \<^verbatim>\<open>decompressExcalidrawContent\<close>: \<open>None\<close> is its null. Without a match of either pattern
  it returns the content as it is.
\<close>

definition decompressExcalidrawContent :: "world \<Rightarrow> string \<Rightarrow> string option" where
  "decompressExcalidrawContent w content =
     (case (case first_match drawing_compressed_at content of
              Some compressedContent \<Rightarrow> Some compressedContent
            | None \<Rightarrow> first_match drawing_fallback_at content) of
        Some compressedContent \<Rightarrow>
          LZString_decompressFromBase64 w
            (filter (\<lambda>c. c \<noteq> CHR 0x0A \<and> c \<noteq> CHR 0x0D) compressedContent)
      | None \<Rightarrow> Some content)"

text \<open>A number in a template literal: its decimal digits.\<close>

function decimal :: "nat \<Rightarrow> string" where
  "decimal n =
     (if n < 10 then [''0123456789'' ! n]
      else decimal (n div 10) @ [''0123456789'' ! (n mod 10)])"
  by pat_completeness auto
termination
  by (relation "measure id") auto

declare decimal.simps [simp del]

text \<open>
  The paths at which \<^verbatim>\<open>getAbstractFileByPath\<close> finds a file or a folder are a list
  \<open>paths\<close>. \<^verbatim>\<open>createFolderRecursively\<close> adds every missing folder on the way, and
  \<^verbatim>\<open>ensureImageFolderExists\<close> calls it when the image folder is missing.
\<close>

fun create_folders :: "string \<Rightarrow> string list \<Rightarrow> string list \<Rightarrow> string list" where
  "create_folders currentPath [] paths = paths"
| "create_folders currentPath (part # parts) paths =
     (let next = (if currentPath \<noteq> [] then currentPath @ ''/'' @ part else part)
      in create_folders next parts (if next \<in> set paths then paths else paths @ [next]))"

definition createFolderRecursively :: "string list \<Rightarrow> string \<Rightarrow> string list" where
  "createFolderRecursively paths folderPath = create_folders [] (split_on (CHR ''/'') folderPath) paths"

definition ensureImageFolderExists :: "string list \<Rightarrow> string \<Rightarrow> string list" where
  "ensureImageFolderExists paths imageFolderPath =
     (if imageFolderPath \<in> set paths then paths else createFolderRecursively paths imageFolderPath)"

text \<open>The value of a string of decimal digits; \<open>decimal\<close> is injective.\<close>

definition undecimal :: "string \<Rightarrow> nat" where
  "undecimal ds = foldl (\<lambda>a c. 10 * a + (of_char c - 48)) 0 ds"

lemma digit_value: "n < 10 \<Longrightarrow> (of_char (''0123456789'' ! n) :: nat) = 48 + n"
proof -
  assume "n < 10"
  then have "n \<in> {0, 1, 2, 3, 4, 5, 6, 7, 8, 9}"
    by auto
  then show ?thesis
    by auto
qed

lemma undecimal_decimal: "undecimal (decimal n) = n"
proof (induction n rule: decimal.induct)
  case (1 n)
  show ?case
  proof (cases "n < 10")
    case True
    then show ?thesis
      by (subst decimal.simps) (simp add: undecimal_def digit_value)
  next
    case False
    with "1.IH" have "undecimal (decimal (n div 10)) = n div 10"
      by simp
    moreover have "(of_char (''0123456789'' ! (n mod 10)) :: nat) = 48 + n mod 10"
      by (rule digit_value) simp
    ultimately show ?thesis
      using False by (subst decimal.simps) (simp add: undecimal_def)
  qed
qed

lemma decimal_inj: "decimal a = decimal b \<Longrightarrow> a = b"
  by (metis undecimal_decimal)

text \<open>
  The name of the image: \<^verbatim>\<open>baseName.png\<close>, or the first of \<^verbatim>\<open>baseName_1.png\<close>,
  \<^verbatim>\<open>baseName_2.png\<close>, ... at which the image folder has nothing yet. The loop
  \<^verbatim>\<open>while (getAbstractFileByPath(filePath))\<close> ends since the vault has finitely many paths
  and the candidates are all different.
\<close>

definition numbered :: "string \<Rightarrow> nat \<Rightarrow> string" where
  "numbered baseName counter = baseName @ ''_'' @ decimal counter @ ''.png''"

lemma numbered_inj: "numbered b i = numbered b j \<Longrightarrow> i = j"
  by (auto simp: numbered_def dest: decimal_inj)

function next_free_name :: "string list \<Rightarrow> string \<Rightarrow> string \<Rightarrow> nat \<Rightarrow> string" where
  "next_free_name paths imageFolderPath baseName counter =
     (if imageFolderPath @ ''/'' @ numbered baseName counter \<in> set paths
      then next_free_name paths imageFolderPath baseName (counter + 1)
      else numbered baseName counter)"
  by pat_completeness auto
termination
proof (relation "measure (\<lambda>(paths, imageFolderPath, baseName, counter).
    card {p \<in> set paths. \<exists>k \<ge> counter. p = imageFolderPath @ ''/'' @ numbered baseName k})")
  show "wf (measure (\<lambda>(paths, imageFolderPath, baseName, counter).
    card {p \<in> set paths. \<exists>k \<ge> counter. p = imageFolderPath @ ''/'' @ numbered baseName k}))"
    by simp
next
  fix paths :: "string list" and imageFolderPath baseName :: string and counter :: nat
  let ?taken = "\<lambda>c. {p \<in> set paths. \<exists>k \<ge> c. p = imageFolderPath @ ''/'' @ numbered baseName k}"
  assume used: "imageFolderPath @ ''/'' @ numbered baseName counter \<in> set paths"
  then have "imageFolderPath @ ''/'' @ numbered baseName counter \<in> ?taken counter"
    by auto
  moreover have "imageFolderPath @ ''/'' @ numbered baseName counter \<notin> ?taken (counter + 1)"
    by (auto dest: numbered_inj)
  moreover have "?taken (counter + 1) \<subseteq> ?taken counter"
    by (auto dest: Suc_leD)
  ultimately have "?taken (counter + 1) \<subset> ?taken counter"
    by blast
  then have "card (?taken (counter + 1)) < card (?taken counter)"
    by (intro psubset_card_mono) auto
  then show "((paths, imageFolderPath, baseName, counter + 1), (paths, imageFolderPath, baseName, counter))
    \<in> measure (\<lambda>(paths, imageFolderPath, baseName, counter).
        card {p \<in> set paths. \<exists>k \<ge> counter. p = imageFolderPath @ ''/'' @ numbered baseName k})"
    by simp
qed

declare next_free_name.simps [simp del]

definition image_file_name :: "string list \<Rightarrow> string \<Rightarrow> string \<Rightarrow> string" where
  "image_file_name paths imageFolderPath baseName =
     (if imageFolderPath @ ''/'' @ baseName @ ''.png'' \<in> set paths
      then next_free_name paths imageFolderPath baseName 1
      else baseName @ ''.png'')"

text \<open>
  \<^verbatim>\<open>exportExcalidrawToImage\<close>: the name of the image written, or \<open>None\<close> for null, and the
  paths of the vault afterwards. It returns null when the link does not resolve, when the
  read throws, when the decompressed text is null or empty, and when the text does not
  parse or render. \<^verbatim>\<open>createBinary\<close> at a path that is free succeeds.
\<close>

definition exportExcalidrawToImage ::
    "world \<Rightarrow> string \<Rightarrow> string list \<Rightarrow> string \<Rightarrow> TFile \<Rightarrow> string option \<times> string list" where
  "exportExcalidrawToImage w targetFolder paths fileName currentFile =
     (case getFirstLinkpathDest w fileName (path currentFile) of
        None \<Rightarrow> (None, paths)
      | Some f \<Rightarrow>
          (case vault_cachedRead w (path f) of
             Inl e \<Rightarrow> (None, paths)
           | Inr excalidrawContent \<Rightarrow>
               (case decompressExcalidrawContent w excalidrawContent of
                  None \<Rightarrow> (None, paths)
                | Some decompressedContent \<Rightarrow>
                    if decompressedContent = [] then (None, paths)
                    else
                      (case exportToBlob w decompressedContent excalidrawContent of
                         None \<Rightarrow> (None, paths)
                       | Some blob \<Rightarrow>
                           (let imageFolderPath =
                                  (if targetFolder \<noteq> [] then targetFolder @ ''/_Image''
                                   else ''_Image'');
                                paths1 = ensureImageFolderExists paths imageFolderPath;
                                imageFileName = image_file_name paths1 imageFolderPath (basename f)
                            in (Some imageFileName,
                                paths1 @ [imageFolderPath @ ''/'' @ imageFileName]))))))"

text \<open>
  The body of the loop of \<^verbatim>\<open>processNoteContent\<close> for one match, on the processed content
  and the paths of the vault, and \<^verbatim>\<open>processNoteContent\<close> itself: the matches are those of
  the content it is given, the replacements are made in the processed content.
\<close>

definition rewrite_match ::
    "world \<Rightarrow> string \<Rightarrow> TFile \<Rightarrow> string \<times> string \<times> string option
      \<Rightarrow> string \<times> string list \<Rightarrow> string \<times> string list" where
  "rewrite_match w targetFolder currentFile m state =
     (case (m, state) of
        ((fullMatch, fileName, displayText), (processedContent, paths)) \<Rightarrow>
          if util_isExcalidrawFile w fileName currentFile
          then (case exportExcalidrawToImage w targetFolder paths fileName currentFile of
                  (Some imageFileName, paths') \<Rightarrow>
                    if imageFileName \<noteq> []
                    then (replace_first processedContent fullMatch
                            (case displayText of
                               Some d \<Rightarrow> ''![['' @ imageFileName @ ''|'' @ d @ '']]''
                             | None \<Rightarrow> ''![['' @ imageFileName @ '']]''),
                          paths')
                    else (processedContent, paths')
                | (None, paths') \<Rightarrow> (processedContent, paths'))
          else (processedContent, paths))"

definition processNoteContent ::
    "world \<Rightarrow> string \<Rightarrow> string list \<Rightarrow> string \<Rightarrow> TFile \<Rightarrow> string \<times> string list" where
  "processNoteContent w targetFolder paths content currentFile =
     fold (rewrite_match w targetFolder currentFile) (scan_embeds content) (content, paths)"

section \<open>The link graph\<close>

text \<open>
  The documents that a chain of exactly \<open>n\<close> links leads to from \<open>file\<close>, and those
  within \<open>n\<close> links, where the links of a document are the files that
  \<^verbatim>\<open>getLinkedFiles\<close> returns for it: links that are excluded, that do not resolve, that
  resolve to a file other than a note and that lead to a drawing are not among them.
\<close>

fun reach_exact :: "world \<Rightarrow> NSPublishSettings \<Rightarrow> nat \<Rightarrow> TFile \<Rightarrow> TFile set" where
  "reach_exact w s 0 file = {file}"
| "reach_exact w s (Suc n) file = (\<Union>g \<in> set (getLinkedFiles w s file). reach_exact w s n g)"

definition reach_within :: "world \<Rightarrow> NSPublishSettings \<Rightarrow> nat \<Rightarrow> TFile \<Rightarrow> TFile set" where
  "reach_within w s n file = (\<Union>k \<in> {..n}. reach_exact w s k file)"

text \<open>
  Within \<open>n\<close> links of the root a path names one document, and that document is found
  at one depth only.
\<close>

definition layered :: "world \<Rightarrow> NSPublishSettings \<Rightarrow> nat \<Rightarrow> TFile \<Rightarrow> bool" where
  "layered w s n root =
     (\<forall>i \<in> {..n}. \<forall>j \<in> {..n}. \<forall>f \<in> reach_exact w s i root. \<forall>g \<in> reach_exact w s j root.
        path f = path g \<longrightarrow> f = g \<and> i = j)"

text \<open>The source paths handed to \<^verbatim>\<open>copyFileToTarget\<close>, in the order of the calls.\<close>

fun materialized :: "storage_op list \<Rightarrow> string list" where
  "materialized [] = []"
| "materialized (ReadSource p # ops) = p # materialized ops"
| "materialized (WriteCopy t # ops) = materialized ops"
| "materialized (RewriteCopy t # ops) = materialized ops"
| "materialized (ReadLinks p # ops) = materialized ops"

section \<open>Invariants of the publish walk\<close>

text \<open>
  What a call of the walk leaves unchanged and what it only extends: \<^verbatim>\<open>processing\<close> is
  the same after the call, everything else grows.
\<close>

definition extends :: "walk_state \<Rightarrow> walk_state \<Rightarrow> bool" where
  "extends st r \<longleftrightarrow>
     processing r = processing st \<and> visited st \<subseteq> visited r
     \<and> publishedFiles st \<subseteq> publishedFiles r \<and> skippedFiles st \<subseteq> skippedFiles r
     \<and> (\<exists>ops. storage_log r = storage_log st @ ops)
     \<and> (\<exists>es. errors r = errors st @ es)"

text \<open>
  No source path was handed to \<^verbatim>\<open>copyFileToTarget\<close> twice, every path handed to it is
  in \<^verbatim>\<open>visited\<close> or \<^verbatim>\<open>processing\<close>, and every published path was handed to it.
\<close>

definition once :: "walk_state \<Rightarrow> bool" where
  "once st \<longleftrightarrow>
     distinct (materialized (storage_log st))
     \<and> set (materialized (storage_log st)) \<subseteq> visited st \<union> processing st
     \<and> publishedFiles st \<subseteq> set (materialized (storage_log st))"

text \<open>
  Two facts about a state of a walk from \<open>root\<close> with bound \<open>n\<close>: the links of every
  visited document at a depth below the bound are in \<^verbatim>\<open>visited\<close> or \<^verbatim>\<open>processing\<close>,
  and every path in one of the two sets is published.
\<close>

definition links_seen :: "world \<Rightarrow> NSPublishSettings \<Rightarrow> nat \<Rightarrow> TFile \<Rightarrow> walk_state \<Rightarrow> bool" where
  "links_seen w s n root st \<longleftrightarrow>
     (\<forall>k < n. \<forall>f \<in> reach_exact w s k root. path f \<in> visited st \<longrightarrow>
        (\<forall>g \<in> set (getLinkedFiles w s f). path g \<in> visited st \<union> processing st))"

definition seen_published :: "walk_state \<Rightarrow> bool" where
  "seen_published st \<longleftrightarrow> visited st \<union> processing st \<subseteq> publishedFiles st"

text \<open>Every copy of a document within \<open>n\<close> links of the root succeeds.\<close>

definition copies_succeed :: "world \<Rightarrow> NSPublishSettings \<Rightarrow> nat \<Rightarrow> TFile \<Rightarrow> bool" where
  "copies_succeed w s n root \<longleftrightarrow>
     (\<forall>f \<in> reach_within w s n root. snd (copyFileToTarget w s f) = Inr ())"

section \<open>Example vaults\<close>

text \<open>
  A note at the top of the vault, and a vault of such notes given by name and content:
  every read and write succeeds, a link text resolves to the note of that name, no
  pattern compiles, and nothing decompresses or renders.
\<close>

definition md_note :: "string \<Rightarrow> TFile" where
  "md_note n =
     \<lparr>path = n @ ''.md'', name = n @ ''.md'', basename = n, extension = ''md'', parent = None\<rparr>"

definition vault_content :: "(string \<times> string) list \<Rightarrow> string \<Rightarrow> string + string" where
  "vault_content notes p =
     (case map_of (map (\<lambda>(n, c). (n @ ''.md'', c)) notes) p of
        Some c \<Rightarrow> Inr c
      | None \<Rightarrow> Inl ''File not found'')"

definition vault_of :: "(string \<times> string) list \<Rightarrow> world" where
  "vault_of notes =
     \<lparr>vault_read = vault_content notes,
      vault_cachedRead = vault_content notes,
      write_target = (\<lambda>t c. None),
      getFirstLinkpathDest = (\<lambda>t p. if t \<in> fst ` set notes then Some (md_note t) else None),
      RegExp = (\<lambda>p. None),
      LZString_decompressFromBase64 = (\<lambda>c. None),
      exportToBlob = (\<lambda>json content. None)\<rparr>"

definition default_settings :: NSPublishSettings where
  "default_settings =
     \<lparr>targetFolderPath = ''700_Publish'', includeLinkedNotes = True, maxDepth = 5,
      excludePatterns = [], preserveFolderStructure = True, addPublishPrefix = False,
      publishPrefix = ''published_'', baseUrl = ''http://172.28.35.242:8080''\<rparr>"

text \<open>
  A vault with a drawing in the format of its own, \<^verbatim>\<open>sketch.excalidraw\<close>: a file of JSON
  text with no element, which the link text \<^verbatim>\<open>sketch.excalidraw\<close> resolves to.
  \<^verbatim>\<open>decompressExcalidrawContent\<close> finds no header in it and hands the text on as it is,
  and \<^verbatim>\<open>exportToBlob\<close> renders it.
\<close>

definition sketch_file :: TFile where
  "sketch_file =
     \<lparr>path = ''sketch.excalidraw'', name = ''sketch.excalidraw'', basename = ''sketch'',
      extension = ''excalidraw'', parent = None\<rparr>"

definition sketch_json :: string where
  "sketch_json = ''{\"type\":\"excalidraw\",\"version\":2,\"elements\":[],\"files\":{}}''"

definition drawing_vault :: world where
  "drawing_vault =
     (vault_of [(''root'', ''text''), (''A'', ''leaf'')])
       \<lparr>vault_cachedRead :=
          (\<lambda>p. if p = ''sketch.excalidraw'' then Inr sketch_json
                else vault_content [(''root'', ''text''), (''A'', ''leaf'')] p),
        getFirstLinkpathDest :=
          (\<lambda>t p. if t = ''sketch.excalidraw'' then Some sketch_file
                  else if t = ''root'' \<or> t = ''A'' then Some (md_note t)
                  else None),
        exportToBlob := (\<lambda>json content. if json = sketch_json then Some ''image'' else None)\<rparr>"

text \<open>The vaults and settings of the examples below.\<close>

definition diamond_vault :: world where
  "diamond_vault =
     vault_of [(''root'', ''[[A]] [[B]]''), (''A'', ''[[B]]''), (''B'', ''[[C]]''), (''C'', ''leaf'')]"

definition mirrored_vault :: world where
  "mirrored_vault =
     vault_of [(''root'', ''[[B]] [[A]]''), (''A'', ''[[B]]''), (''B'', ''[[C]]''), (''C'', ''leaf'')]"

definition ring_vault :: world where
  "ring_vault =
     vault_of [(''root'', ''[[A]] and [[B|b]]''), (''A'', ''[[C]]''), (''B'', ''leaf''), (''C'', ''[[root]]'')]"

definition failing_vault :: world where
  "failing_vault =
     (vault_of [(''root'', ''[[A]]''), (''A'', ''leaf''), (''B'', ''leaf'')])
       \<lparr>write_target := (\<lambda>t c. if t = ''700_Publish/root.md'' then Some ''disk full'' else None)\<rparr>"

definition pair_vault :: world where
  "pair_vault = vault_of [(''root'', ''see [[A]] and [[root]]''), (''A'', ''[[B]]''), (''B'', ''leaf'')]"

definition linked_with_bound :: "nat option \<Rightarrow> PublishOptions" where
  "linked_with_bound n = \<lparr>includeLinked = True, opt_maxDepth = n, opt_excludePatterns = None\<rparr>"

definition triangle_vault :: world where
  "triangle_vault = vault_of [(''root'', ''[[A]] [[B]]''), (''A'', ''[[B]] [[root]]''), (''B'', ''leaf'')]"

definition exclusion_vault :: world where
  "exclusion_vault =
     (vault_of [(''root'', ''[[Private diary]], [[A]], [[ B [draft ]] and [[A|again]]''),
                (''Private diary'', ''secret''), (''A'', ''leaf''), (''B [draft'', ''leaf'')])
       \<lparr>RegExp := (\<lambda>p. if p = ''^Private'' then Some (\<lambda>t. startsWith t ''Private'') else None)\<rparr>"

definition exclusion_settings :: NSPublishSettings where
  "exclusion_settings = default_settings\<lparr>excludePatterns := [''^Private'', ''[draft'']\<rparr>"

definition ampersand_note :: TFile where
  "ampersand_note =
     \<lparr>path = ''A & B/note name.md'', name = ''note name.md'', basename = ''note name'',
      extension = ''md'', parent = Some ''A & B''\<rparr>"

section \<open>Properties of the string operations\<close>

lemma startsWith_iff: "startsWith s p \<longleftrightarrow> (\<exists>v. s = p @ v)"
proof
  assume "startsWith s p"
  then have "s = p @ drop (length p) s"
    by (metis append_take_drop_id startsWith_def)
  then show "\<exists>v. s = p @ v" ..
next
  assume "\<exists>v. s = p @ v"
  then show "startsWith s p"
    by (auto simp: startsWith_def)
qed

lemma includes_str_iff: "includes_str s p \<longleftrightarrow> (\<exists>u v. s = u @ p @ v)"
proof (induction s)
  case Nil
  then show ?case by auto
next
  case (Cons c cs)
  show ?case
  proof
    assume "includes_str (c # cs) p"
    then consider "startsWith (c # cs) p" | "includes_str cs p"
      by auto
    then show "\<exists>u v. c # cs = u @ p @ v"
    proof cases
      case 1
      then obtain v where "c # cs = p @ v"
        by (auto simp: startsWith_iff)
      then have "c # cs = [] @ p @ v" by simp
      then show ?thesis by blast
    next
      case 2
      with Cons.IH obtain u v where "cs = u @ p @ v" by blast
      then have "c # cs = (c # u) @ p @ v" by simp
      then show ?thesis by blast
    qed
  next
    assume "\<exists>u v. c # cs = u @ p @ v"
    then obtain u v where uv: "c # cs = u @ p @ v" by blast
    show "includes_str (c # cs) p"
    proof (cases u)
      case Nil
      with uv have "startsWith (c # cs) p"
        by (auto simp: startsWith_iff)
      then show ?thesis by simp
    next
      case (Cons a u')
      with uv have "cs = u' @ p @ v" by simp
      with Cons.IH have "includes_str cs p" by blast
      then show ?thesis by simp
    qed
  qed
qed

lemma includes_str_char: "includes_str s [c] \<longleftrightarrow> c \<in> set s"
  by (auto simp: includes_str_iff in_set_conv_decomp)

section \<open>The target path validator\<close>

text \<open>
  C10. \<^verbatim>\<open>isValidTargetPath\<close> accepts a folder path exactly when the path is not empty,
  has no two consecutive dots anywhere, has no backslash, does not begin with a slash and
  has no colon.
\<close>

theorem isValidTargetPath_iff:
  "isValidTargetPath folderPath \<longleftrightarrow>
     folderPath \<noteq> []
     \<and> \<not> (\<exists>u v. folderPath = u @ ''..'' @ v)
     \<and> CHR 0x5C \<notin> set folderPath
     \<and> \<not> (\<exists>r. folderPath = CHR ''/'' # r)
     \<and> CHR '':'' \<notin> set folderPath"
proof -
  have "startsWith folderPath ''/'' \<longleftrightarrow> (\<exists>r. folderPath = CHR ''/'' # r)"
    by (simp add: startsWith_iff)
  then show ?thesis
    unfolding isValidTargetPath_def includes_str_char
    by (simp add: includes_str_iff)
qed

section \<open>One copy for each path\<close>

lemma materialized_append: "materialized (xs @ ys) = materialized xs @ materialized ys"
  by (induction xs rule: materialized.induct) auto

lemma copyFileToTarget_materialized:
  "materialized (fst (copyFileToTarget w s file)) = [path file]"
  by (auto simp: copyFileToTarget_def split: sum.splits option.splits)

lemma extends_refl: "extends st st"
  by (simp add: extends_def)

lemma extends_trans: "extends a b \<Longrightarrow> extends b c \<Longrightarrow> extends a c"
  by (auto simp: extends_def)

lemma walk_extends:
  "extends st (publishNoteRecursively w s file st depth maxDepth')"
  "extends st (publishLinkedFiles w s files st depth maxDepth')"
proof (induction w s "file" st depth maxDepth' and w s files st depth maxDepth'
    rule: publishNoteRecursively_publishLinkedFiles.induct)
  case (1 w s f st depth maxDepth')
  show ?case
  proof (cases "path f \<in> visited st \<or> path f \<in> processing st")
    case True
    then show ?thesis
      by (simp add: publishNoteRecursively.simps extends_refl)
  next
    case guard: False
    show ?thesis
    proof (cases "depth > maxDepth'")
      case True
      with guard show ?thesis
        by (auto simp: publishNoteRecursively.simps extends_def)
    next
      case False
      obtain ops res where c: "copyFileToTarget w s f = (ops, res)"
        by (cases "copyFileToTarget w s f")
      show ?thesis
      proof (cases res)
        case (Inl message)
        with guard False c show ?thesis
          by (auto simp: publishNoteRecursively.simps extends_def leave_node_def copy_failed_def
              enter_node_def)
      next
        case (Inr u)
        with "1.IH" [OF guard False c [symmetric]]
        have "extends (copy_succeeded (path f) ops (enter_node (path f) st))
           (publishLinkedFiles w s (getLinkedFiles w s f)
              (copy_succeeded (path f) ops (enter_node (path f) st)) (depth + 1) maxDepth')"
          by simp
        with guard False c Inr show ?thesis
          by (auto simp: publishNoteRecursively.simps extends_def leave_node_def
              copy_succeeded_def enter_node_def)
      qed
    qed
  qed
next
  case (2 w s st depth maxDepth')
  then show ?case by (simp add: extends_refl)
next
  case (3 w s linkedFile linkedFiles st depth maxDepth')
  then show ?case
    by (auto intro: extends_trans)
qed

lemma walk_once:
  "once st \<Longrightarrow> once (publishNoteRecursively w s file st depth maxDepth')"
  "once st \<Longrightarrow> once (publishLinkedFiles w s files st depth maxDepth')"
proof (induction w s "file" st depth maxDepth' and w s files st depth maxDepth'
    rule: publishNoteRecursively_publishLinkedFiles.induct)
  case (1 w s f st depth maxDepth')
  show ?case
  proof (cases "path f \<in> visited st \<or> path f \<in> processing st")
    case True
    with "1.prems" show ?thesis
      by (simp add: publishNoteRecursively.simps)
  next
    case guard: False
    show ?thesis
    proof (cases "depth > maxDepth'")
      case True
      with guard "1.prems" show ?thesis
        by (auto simp: publishNoteRecursively.simps once_def)
    next
      case False
      obtain ops res where c: "copyFileToTarget w s f = (ops, res)"
        by (cases "copyFileToTarget w s f")
      then have m: "materialized ops = [path f]"
        using copyFileToTarget_materialized [of w s f] by simp
      from guard "1.prems" have fresh: "path f \<notin> set (materialized (storage_log st))"
        by (auto simp: once_def)
      show ?thesis
      proof (cases res)
        case (Inl message)
        with guard False c m fresh "1.prems" show ?thesis
          by (auto simp: publishNoteRecursively.simps once_def leave_node_def copy_failed_def
              enter_node_def materialized_append)
      next
        case (Inr u)
        let ?st1 = "copy_succeeded (path f) ops (enter_node (path f) st)"
        let ?r = "publishLinkedFiles w s (getLinkedFiles w s f) ?st1 (depth + 1) maxDepth'"
        from m fresh "1.prems" have "once ?st1"
          by (auto simp: once_def copy_succeeded_def enter_node_def materialized_append)
        with "1.IH" [OF guard False c [symmetric] Inr] have r: "once ?r"
          by simp
        have "extends ?st1 ?r"
          by (rule walk_extends)
        then have "path f \<in> processing ?r"
          by (simp add: extends_def copy_succeeded_def enter_node_def)
        with r have "once (leave_node (path f) ?r)"
          by (auto simp: once_def leave_node_def)
        with guard False c Inr show ?thesis
          by (simp add: publishNoteRecursively.simps)
      qed
    qed
  qed
next
  case (2 w s st depth maxDepth')
  then show ?case by simp
next
  case (3 w s linkedFile linkedFiles st depth maxDepth')
  then show ?case by simp
qed

lemma reach_exact_finite: "finite (reach_exact w s n file)"
  by (induction n arbitrary: "file") auto

lemma reach_within_finite: "finite (reach_within w s n file)"
  by (simp add: reach_within_def reach_exact_finite)

lemma reach_within_0: "reach_within w s 0 file = {file}"
  by (simp add: reach_within_def)

lemma reach_within_Suc:
  "reach_within w s (Suc n) file =
     insert file (\<Union>g \<in> set (getLinkedFiles w s file). reach_within w s n g)"
proof -
  have "{..Suc n} = insert 0 (Suc ` {..n})"
    by (auto simp: image_iff atMost_Suc_eq_insert_0)
  then show ?thesis
    by (auto simp: reach_within_def)
qed

lemma reach_within_self: "file \<in> reach_within w s n file"
proof -
  have "file \<in> reach_exact w s 0 file" by simp
  then show ?thesis
    unfolding reach_within_def by blast
qed

lemma walk_materialized_sound:
  "set (materialized (storage_log (publishNoteRecursively w s file st depth maxDepth')))
     \<subseteq> set (materialized (storage_log st))
        \<union> (if depth \<le> maxDepth' then path ` reach_within w s (maxDepth' - depth) file else {})"
  "set (materialized (storage_log (publishLinkedFiles w s files st depth maxDepth')))
     \<subseteq> set (materialized (storage_log st))
        \<union> (if depth \<le> maxDepth'
           then (\<Union>g \<in> set files. path ` reach_within w s (maxDepth' - depth) g) else {})"
proof (induction w s "file" st depth maxDepth' and w s files st depth maxDepth'
    rule: publishNoteRecursively_publishLinkedFiles.induct)
  case (1 w s f st depth maxDepth')
  show ?case
  proof (cases "path f \<in> visited st \<or> path f \<in> processing st")
    case True
    then show ?thesis
      by (simp add: publishNoteRecursively.simps)
  next
    case guard: False
    show ?thesis
    proof (cases "depth > maxDepth'")
      case True
      with guard show ?thesis
        by (simp add: publishNoteRecursively.simps)
    next
      case False
      obtain ops res where c: "copyFileToTarget w s f = (ops, res)"
        by (cases "copyFileToTarget w s f")
      then have m: "materialized ops = [path f]"
        using copyFileToTarget_materialized [of w s f] by simp
      have self: "f \<in> reach_within w s (maxDepth' - depth) f"
        by (rule reach_within_self)
      show ?thesis
      proof (cases res)
        case (Inl message)
        with guard False c m self show ?thesis
          by (auto simp: publishNoteRecursively.simps leave_node_def copy_failed_def
              enter_node_def materialized_append)
      next
        case (Inr u)
        let ?st1 = "copy_succeeded (path f) ops (enter_node (path f) st)"
        let ?r = "publishLinkedFiles w s (getLinkedFiles w s f) ?st1 (depth + 1) maxDepth'"
        have st1: "set (materialized (storage_log ?st1)) = insert (path f) (set (materialized (storage_log st)))"
          using m by (simp add: copy_succeeded_def enter_node_def materialized_append)
        have ih: "set (materialized (storage_log ?r)) \<subseteq> set (materialized (storage_log ?st1))
            \<union> (if depth + 1 \<le> maxDepth'
               then (\<Union>g \<in> set (getLinkedFiles w s f). path ` reach_within w s (maxDepth' - (depth + 1)) g)
               else {})"
          using "1.IH" [OF guard False c [symmetric] Inr] .
        have "set (materialized (storage_log ?r))
            \<subseteq> set (materialized (storage_log st)) \<union> path ` reach_within w s (maxDepth' - depth) f"
        proof (cases "depth + 1 \<le> maxDepth'")
          case True
          then have "maxDepth' - depth = Suc (maxDepth' - (depth + 1))"
            by simp
          then have "reach_within w s (maxDepth' - depth) f =
              insert f (\<Union>g \<in> set (getLinkedFiles w s f). reach_within w s (maxDepth' - (depth + 1)) g)"
            by (simp only: reach_within_Suc)
          with ih st1 True show ?thesis
            by auto
        next
          case False
          with ih st1 self show ?thesis
            by auto
        qed
        with guard False c Inr show ?thesis
          by (simp add: publishNoteRecursively.simps leave_node_def)
      qed
    qed
  qed
next
  case (2 w s st depth maxDepth')
  then show ?case by simp
next
  case (3 w s linkedFile linkedFiles st depth maxDepth')
  then show ?case
    by (auto split: if_splits)
qed

text \<open>
  C2. The walk returns for every vault, with or without cycles: \<^const>\<open>publishNoteRecursively\<close>
  is a total function, by its termination proof, whose measure is the distance of the
  depth from the bound. In one call of \<^verbatim>\<open>publishNoteWithLinks\<close> no source path is handed
  to \<^verbatim>\<open>copyFileToTarget\<close> twice, every path of \<^verbatim>\<open>publishedFiles\<close> was added after such a
  call for it, and the number of these calls is at most the number of paths of documents
  within the bound of the root.
\<close>

theorem walk_materializes_once:
  "distinct (materialized (storage_log (publishNoteWithLinks w s root new_result options)))
   \<and> publishedFiles (publishNoteWithLinks w s root new_result options)
       \<subseteq> set (materialized (storage_log (publishNoteWithLinks w s root new_result options)))
   \<and> length (materialized (storage_log (publishNoteWithLinks w s root new_result options)))
       \<le> card (path ` reach_within w s (effectiveMaxDepth s options) root)"
proof -
  let ?st = "new_result\<lparr>visited := {}, processing := {}\<rparr>"
  let ?r = "publishNoteRecursively w s root ?st 0 (effectiveMaxDepth s options)"
  have "once ?st"
    by (simp add: once_def new_result_def)
  then have o: "once ?r"
    by (rule walk_once)
  have "set (materialized (storage_log ?r)) \<subseteq> path ` reach_within w s (effectiveMaxDepth s options) root"
    using walk_materialized_sound(1) [of w s root ?st 0 "effectiveMaxDepth s options"]
    by (simp add: new_result_def)
  then have "card (set (materialized (storage_log ?r)))
      \<le> card (path ` reach_within w s (effectiveMaxDepth s options) root)"
    by (intro card_mono finite_imageI reach_within_finite)
  moreover from o have "card (set (materialized (storage_log ?r))) = length (materialized (storage_log ?r))"
    by (simp add: once_def distinct_card)
  ultimately show ?thesis
    using o by (simp add: publishNoteWithLinks_def once_def)
qed

section \<open>The walk and the link graph\<close>

lemma reach_exact_Suc_last:
  "reach_exact w s (Suc n) file = (\<Union>f \<in> reach_exact w s n file. set (getLinkedFiles w s f))"
proof (induction n arbitrary: "file")
  case 0
  show ?case by simp
next
  case (Suc n)
  have step: "reach_exact w s (Suc k) h = (\<Union>g \<in> set (getLinkedFiles w s h). reach_exact w s k g)"
    for k h by simp
  have "reach_exact w s (Suc (Suc n)) file
      = (\<Union>g \<in> set (getLinkedFiles w s file). reach_exact w s (Suc n) g)"
    by (rule step)
  also have "\<dots> = (\<Union>g \<in> set (getLinkedFiles w s file).
      \<Union>f \<in> reach_exact w s n g. set (getLinkedFiles w s f))"
    using Suc.IH by blast
  also have "\<dots> = (\<Union>f \<in> (\<Union>g \<in> set (getLinkedFiles w s file). reach_exact w s n g).
      set (getLinkedFiles w s f))"
    by blast
  also have "\<dots> = (\<Union>f \<in> reach_exact w s (Suc n) file. set (getLinkedFiles w s f))"
    unfolding step [of n "file"] ..
  finally show ?case .
qed

lemma layeredD:
  "layered w s n root \<Longrightarrow> i \<le> n \<Longrightarrow> j \<le> n \<Longrightarrow> f \<in> reach_exact w s i root \<Longrightarrow>
   g \<in> reach_exact w s j root \<Longrightarrow> path f = path g \<Longrightarrow> f = g \<and> i = j"
  unfolding layered_def by (metis atMost_iff)

lemma reach_exact_within: "f \<in> reach_exact w s k file \<Longrightarrow> k \<le> n \<Longrightarrow> f \<in> reach_within w s n file"
  unfolding reach_within_def by blast

lemma walk_complete:
  "copies_succeed w s maxDepth' root \<Longrightarrow> layered w s maxDepth' root \<Longrightarrow>
   file \<in> reach_exact w s depth root \<Longrightarrow> depth \<le> Suc maxDepth' \<Longrightarrow>
   links_seen w s maxDepth' root st \<Longrightarrow> seen_published st \<Longrightarrow>
     links_seen w s maxDepth' root (publishNoteRecursively w s file st depth maxDepth')
     \<and> seen_published (publishNoteRecursively w s file st depth maxDepth')
     \<and> (depth \<le> maxDepth' \<longrightarrow>
          path file \<in> visited (publishNoteRecursively w s file st depth maxDepth')
            \<union> processing (publishNoteRecursively w s file st depth maxDepth'))"
  "copies_succeed w s maxDepth' root \<Longrightarrow> layered w s maxDepth' root \<Longrightarrow>
   set files \<subseteq> reach_exact w s depth root \<Longrightarrow> depth \<le> Suc maxDepth' \<Longrightarrow>
   links_seen w s maxDepth' root st \<Longrightarrow> seen_published st \<Longrightarrow>
     links_seen w s maxDepth' root (publishLinkedFiles w s files st depth maxDepth')
     \<and> seen_published (publishLinkedFiles w s files st depth maxDepth')
     \<and> (depth \<le> maxDepth' \<longrightarrow>
          path ` set files \<subseteq> visited (publishLinkedFiles w s files st depth maxDepth')
            \<union> processing (publishLinkedFiles w s files st depth maxDepth'))"
proof (induction w s "file" st depth maxDepth' and w s files st depth maxDepth'
    rule: publishNoteRecursively_publishLinkedFiles.induct)
  case (1 w s f st depth m)
  note ok = "1.prems"(1) and lay = "1.prems"(2) and here = "1.prems"(3)
    and ls = "1.prems"(5) and sp = "1.prems"(6)
  show ?case
  proof (cases "path f \<in> visited st \<or> path f \<in> processing st")
    case True
    with ls sp show ?thesis
      by (auto simp: publishNoteRecursively.simps)
  next
    case guard: False
    show ?thesis
    proof (cases "depth > m")
      case True
      with guard ls sp show ?thesis
        by (auto simp: publishNoteRecursively.simps links_seen_def seen_published_def)
    next
      case False
      then have d: "depth \<le> m" by simp
      obtain ops res where c: "copyFileToTarget w s f = (ops, res)"
        by (cases "copyFileToTarget w s f")
      from here d have "f \<in> reach_within w s m root"
        by (rule reach_exact_within)
      with ok c have res: "res = Inr ()"
        by (auto simp: copies_succeed_def)
      let ?p = "path f"
      let ?st1 = "copy_succeeded ?p ops (enter_node ?p st)"
      let ?r = "publishLinkedFiles w s (getLinkedFiles w s f) ?st1 (depth + 1) m"
      have r_eq: "publishNoteRecursively w s f st depth m = leave_node ?p ?r"
        using guard False c res by (simp add: publishNoteRecursively.simps)
      from ls have ls1: "links_seen w s m root ?st1"
        by (auto simp: links_seen_def copy_succeeded_def enter_node_def)
      from sp have sp1: "seen_published ?st1"
        by (auto simp: seen_published_def copy_succeeded_def enter_node_def)
      from here have sub: "set (getLinkedFiles w s f) \<subseteq> reach_exact w s (depth + 1) root"
        unfolding Suc_eq_plus1 [symmetric] reach_exact_Suc_last by blast
      from d have d1: "depth + 1 \<le> Suc m" by simp
      from "1.IH" [OF guard False c [symmetric] res ok lay sub d1 ls1 sp1]
      have lsr: "links_seen w s m root ?r" and spr: "seen_published ?r"
        and seen: "depth + 1 \<le> m \<Longrightarrow> path ` set (getLinkedFiles w s f) \<subseteq> visited ?r \<union> processing ?r"
        by auto
      have "extends ?st1 ?r"
        by (rule walk_extends)
      then have inproc: "?p \<in> processing ?r"
        by (simp add: extends_def copy_succeeded_def enter_node_def)
      then have same: "visited (leave_node ?p ?r) \<union> processing (leave_node ?p ?r)
          = visited ?r \<union> processing ?r"
        by (auto simp: leave_node_def)
      have "links_seen w s m root (leave_node ?p ?r)"
        unfolding links_seen_def
      proof (intro allI impI ballI)
        fix k f' g
        assume k: "k < m" and f': "f' \<in> reach_exact w s k root"
          and v: "path f' \<in> visited (leave_node ?p ?r)"
          and g: "g \<in> set (getLinkedFiles w s f')"
        show "path g \<in> visited (leave_node ?p ?r) \<union> processing (leave_node ?p ?r)"
        proof (cases "path f' \<in> visited ?r")
          case True
          with lsr k f' g have "path g \<in> visited ?r \<union> processing ?r"
            unfolding links_seen_def by blast
          with same show ?thesis by simp
        next
          case False
          with v have "path f' = ?p"
            by (simp add: leave_node_def)
          with layeredD [OF lay _ d f' here] k have "f' = f \<and> k = depth"
            by simp
          with k g seen have "path g \<in> visited ?r \<union> processing ?r"
            by auto
          with same show ?thesis by simp
        qed
      qed
      moreover from spr inproc have "seen_published (leave_node ?p ?r)"
        by (auto simp: seen_published_def leave_node_def)
      moreover have "?p \<in> visited (leave_node ?p ?r)"
        by (simp add: leave_node_def)
      ultimately show ?thesis
        by (simp add: r_eq)
    qed
  qed
next
  case (2 w s st depth m)
  then show ?case by simp
next
  case (3 w s linkedFile linkedFiles st depth m)
  let ?r1 = "publishNoteRecursively w s linkedFile st depth m"
  let ?r = "publishLinkedFiles w s linkedFiles ?r1 depth m"
  from "3.prems" have first: "linkedFile \<in> reach_exact w s depth root"
    and rest: "set linkedFiles \<subseteq> reach_exact w s depth root"
    by auto
  from "3.IH"(1) [OF "3.prems"(1,2) first "3.prems"(4,5,6)]
  have ls1: "links_seen w s m root ?r1" and sp1: "seen_published ?r1"
    and seen1: "depth \<le> m \<Longrightarrow> path linkedFile \<in> visited ?r1 \<union> processing ?r1"
    by auto
  from "3.IH"(2) [OF "3.prems"(1,2) rest "3.prems"(4) ls1 sp1]
  have lsr: "links_seen w s m root ?r" and spr: "seen_published ?r"
    and seen: "depth \<le> m \<Longrightarrow> path ` set linkedFiles \<subseteq> visited ?r \<union> processing ?r"
    by auto
  have "extends ?r1 ?r"
    by (rule walk_extends)
  with seen1 have "depth \<le> m \<Longrightarrow> path linkedFile \<in> visited ?r \<union> processing ?r"
    by (auto simp: extends_def)
  with lsr spr seen show ?case
    by auto
qed

text \<open>
  The paths published by a walk from the root at depth 0 are paths of documents within
  \<open>maxDepth\<close> links of the root.
\<close>

lemma walk_published_within_bound:
  "publishedFiles (publishNoteRecursively w s root new_result 0 maxDepth')
     \<subseteq> path ` reach_within w s maxDepth' root"
proof -
  let ?r = "publishNoteRecursively w s root new_result 0 maxDepth'"
  have "once new_result"
    by (simp add: once_def new_result_def)
  then have "once ?r"
    by (rule walk_once)
  moreover have "set (materialized (storage_log ?r)) \<subseteq> path ` reach_within w s maxDepth' root"
    using walk_materialized_sound(1) [of w s root new_result 0 maxDepth']
    by (simp add: new_result_def)
  ultimately show ?thesis
    by (auto simp: once_def)
qed

text \<open>
  Where every copy within the bound succeeds and every path within the bound names one
  document found at one depth only, as in a tree, all of them are published.
\<close>

lemma walk_publishes_layered:
  assumes ok: "copies_succeed w s maxDepth' root" and lay: "layered w s maxDepth' root"
  shows "publishedFiles (publishNoteRecursively w s root new_result 0 maxDepth')
          = path ` reach_within w s maxDepth' root"
proof -
  let ?r = "publishNoteRecursively w s root new_result 0 maxDepth'"
  have "links_seen w s maxDepth' root new_result" "seen_published new_result"
    by (simp_all add: links_seen_def seen_published_def new_result_def)
  with walk_complete(1) [OF ok lay, of root 0 new_result]
  have ls: "links_seen w s maxDepth' root ?r" and sp: "seen_published ?r"
    and r: "path root \<in> visited ?r \<union> processing ?r"
    by auto
  have "extends new_result ?r"
    by (rule walk_extends)
  then have none: "processing ?r = {}"
    by (simp add: extends_def new_result_def)
  have "k \<le> maxDepth' \<Longrightarrow> f \<in> reach_exact w s k root \<Longrightarrow> path f \<in> visited ?r" for k f
  proof (induction k arbitrary: f)
    case 0
    with r none show ?case by simp
  next
    case (Suc k)
    from Suc.prems(2) obtain g where g: "g \<in> reach_exact w s k root"
      and f: "f \<in> set (getLinkedFiles w s g)"
      unfolding reach_exact_Suc_last by blast
    from Suc.prems(1) have k: "k < maxDepth'" by simp
    with Suc.IH g have "path g \<in> visited ?r" by simp
    with ls k g f none show ?case
      unfolding links_seen_def by blast
  qed
  then have "path ` reach_within w s maxDepth' root \<subseteq> visited ?r"
    unfolding reach_within_def by auto
  with sp have "path ` reach_within w s maxDepth' root \<subseteq> publishedFiles ?r"
    by (auto simp: seen_published_def)
  with walk_published_within_bound [of w s root maxDepth'] show ?thesis
    by blast
qed

text \<open>
  C1. The walk does not publish every document within \<open>maxDepth\<close> links of the root.
  What it publishes is always among them, for every vault, settings, root and bound. But
  in the vault without any cycle where the root links to A and B, A to B, and B to C, with
  the bound 2 and every copy succeeding, the walk reaches B first through A, at depth 2,
  skips C at depth 3 and marks B visited; the link from the root to B, at depth 1, is then
  dropped by the guard, and C, two links from the root, is not published. The publish call
  with the option \<^verbatim>\<open>maxDepth\<close> 2 returns the same result. On the same vault and bound
  \<^verbatim>\<open>getAllLinkedFilesRecursively\<close>, which counts the files of the dry run, returns A, B
  and C; and with the two links of the root in the other order the walk publishes all
  four documents.
\<close>

theorem walk_misses_reachable:
  "publishedFiles (publishNoteRecursively w s root new_result 0 maxDepth')
     \<subseteq> path ` reach_within w s maxDepth' root
   \<and> getLinkedFiles diamond_vault default_settings (md_note ''root'') = [md_note ''A'', md_note ''B'']
   \<and> getLinkedFiles diamond_vault default_settings (md_note ''A'') = [md_note ''B'']
   \<and> getLinkedFiles diamond_vault default_settings (md_note ''B'') = [md_note ''C'']
   \<and> getLinkedFiles diamond_vault default_settings (md_note ''C'') = []
   \<and> path ` reach_within diamond_vault default_settings 2 (md_note ''root'')
       = {''root.md'', ''A.md'', ''B.md'', ''C.md''}
   \<and> result_of (publishNoteRecursively diamond_vault default_settings (md_note ''root'') new_result 0 2)
       = \<lparr>publishedFiles = {''root.md'', ''A.md'', ''B.md''}, skippedFiles = {''C.md''}, errors = []\<rparr>
   \<and> report_result (publishNote diamond_vault default_settings (Some (md_note ''root''))
        \<lparr>includeLinked = True, opt_maxDepth = Some 2, opt_excludePatterns = None\<rparr>)
       = \<lparr>publishedFiles = {''root.md'', ''A.md'', ''B.md''}, skippedFiles = {''C.md''}, errors = []\<rparr>
   \<and> getAllLinkedFilesRecursively diamond_vault default_settings (md_note ''root'') 2 {}
       = {md_note ''A'', md_note ''B'', md_note ''C''}
   \<and> getLinkedFiles mirrored_vault default_settings (md_note ''root'') = [md_note ''B'', md_note ''A'']
   \<and> path ` reach_within mirrored_vault default_settings 2 (md_note ''root'')
       = {''root.md'', ''A.md'', ''B.md'', ''C.md''}
   \<and> result_of (publishNoteRecursively mirrored_vault default_settings (md_note ''root'') new_result 0 2)
       = \<lparr>publishedFiles = {''root.md'', ''A.md'', ''B.md'', ''C.md''}, skippedFiles = {}, errors = []\<rparr>"
proof -
  have "getLinkedFiles diamond_vault default_settings (md_note ''root'') = [md_note ''A'', md_note ''B'']"
    by code_simp
  moreover have "getLinkedFiles diamond_vault default_settings (md_note ''A'') = [md_note ''B'']"
    by code_simp
  moreover have "getLinkedFiles diamond_vault default_settings (md_note ''B'') = [md_note ''C'']"
    by code_simp
  moreover have "getLinkedFiles diamond_vault default_settings (md_note ''C'') = []"
    by code_simp
  moreover have "path ` reach_within diamond_vault default_settings 2 (md_note ''root'')
       = {''root.md'', ''A.md'', ''B.md'', ''C.md''}"
    by code_simp
  moreover have
    "result_of (publishNoteRecursively diamond_vault default_settings (md_note ''root'') new_result 0 2)
       = \<lparr>publishedFiles = {''root.md'', ''A.md'', ''B.md''}, skippedFiles = {''C.md''}, errors = []\<rparr>"
    by code_simp
  moreover have
    "report_result (publishNote diamond_vault default_settings (Some (md_note ''root''))
        \<lparr>includeLinked = True, opt_maxDepth = Some 2, opt_excludePatterns = None\<rparr>)
       = \<lparr>publishedFiles = {''root.md'', ''A.md'', ''B.md''}, skippedFiles = {''C.md''}, errors = []\<rparr>"
    by code_simp
  moreover have "getAllLinkedFilesRecursively diamond_vault default_settings (md_note ''root'') 2 {}
       = {md_note ''A'', md_note ''B'', md_note ''C''}"
    by code_simp
  moreover have
    "getLinkedFiles mirrored_vault default_settings (md_note ''root'') = [md_note ''B'', md_note ''A'']"
    by code_simp
  moreover have "path ` reach_within mirrored_vault default_settings 2 (md_note ''root'')
       = {''root.md'', ''A.md'', ''B.md'', ''C.md''}"
    by code_simp
  moreover have
    "result_of (publishNoteRecursively mirrored_vault default_settings (md_note ''root'') new_result 0 2)
       = \<lparr>publishedFiles = {''root.md'', ''A.md'', ''B.md'', ''C.md''}, skippedFiles = {}, errors = []\<rparr>"
    by code_simp
  ultimately show ?thesis
    using walk_published_within_bound [of w s root maxDepth']
    by blast
qed

text \<open>
  A vault with a cycle in which all documents within the bound are published: the root
  links to A and B, A to C, and C back to the root, a cycle that closes beyond the bound 2.
\<close>

lemma walk_publishes_layered_example:
  "copies_succeed ring_vault default_settings 2 (md_note ''root'')
   \<and> layered ring_vault default_settings 2 (md_note ''root'')
   \<and> publishedFiles (publishNoteRecursively ring_vault default_settings (md_note ''root'') new_result 0 2)
       = path ` reach_within ring_vault default_settings 2 (md_note ''root'')
   \<and> publishedFiles (publishNoteRecursively ring_vault default_settings (md_note ''root'') new_result 0 2)
       = {''root.md'', ''A.md'', ''B.md'', ''C.md''}"
proof -
  have ok: "copies_succeed ring_vault default_settings 2 (md_note ''root'')"
    by code_simp
  have lay: "layered ring_vault default_settings 2 (md_note ''root'')"
    by code_simp
  have val: "publishedFiles (publishNoteRecursively ring_vault default_settings (md_note ''root'') new_result 0 2)
       = {''root.md'', ''A.md'', ''B.md'', ''C.md''}"
    by code_simp
  from walk_publishes_layered [OF ok lay] ok lay val show ?thesis
    by simp
qed

section \<open>Single calls of the walk\<close>

text \<open>Beyond the bound a call only records the path, unless the guard drops it.\<close>

lemma publishNoteRecursively_guarded:
  "path file \<in> visited st \<or> path file \<in> processing st \<Longrightarrow>
     publishNoteRecursively w s file st depth maxDepth' = st"
  by (simp add: publishNoteRecursively.simps)

lemma publishNoteRecursively_beyond:
  "path file \<notin> visited st \<Longrightarrow> path file \<notin> processing st \<Longrightarrow> maxDepth' < depth \<Longrightarrow>
     publishNoteRecursively w s file st depth maxDepth'
       = st\<lparr>skippedFiles := insert (path file) (skippedFiles st)\<rparr>"
  by (simp add: publishNoteRecursively.simps)

lemma publishLinkedFiles_beyond:
  "maxDepth' < depth \<Longrightarrow>
     publishLinkedFiles w s files st depth maxDepth'
       = st\<lparr>skippedFiles := skippedFiles st \<union> (path ` set files - (visited st \<union> processing st))\<rparr>"
proof (induction files arbitrary: st)
  case Nil
  then show ?case by simp
next
  case (Cons g gs)
  show ?case
  proof (cases "path g \<in> visited st \<or> path g \<in> processing st")
    case True
    then have "publishNoteRecursively w s g st depth maxDepth' = st"
      by (rule publishNoteRecursively_guarded)
    with Cons True show ?thesis
      by (auto intro!: arg_cong [where f = "\<lambda>A. st\<lparr>skippedFiles := A\<rparr>"])
  next
    case False
    with Cons.prems have "publishNoteRecursively w s g st depth maxDepth'
        = st\<lparr>skippedFiles := insert (path g) (skippedFiles st)\<rparr>"
      by (simp add: publishNoteRecursively_beyond)
    with Cons False show ?thesis
      by (auto intro!: arg_cong [where f = "\<lambda>A. st\<lparr>skippedFiles := A\<rparr>"])
  qed
qed

lemma publishNoteRecursively_copy_failed:
  assumes "path file \<notin> visited st" and "path file \<notin> processing st" and "depth \<le> maxDepth'"
    and "copyFileToTarget w s file = (ops, Inl message)"
  shows "publishNoteRecursively w s file st depth maxDepth'
    = st\<lparr>errors := errors st @ [''Error processing '' @ path file @ '': '' @ message],
         visited := insert (path file) (visited st),
         storage_log := storage_log st @ ops\<rparr>"
proof -
  from assms(2) have "insert (path file) (processing st) - {path file} = processing st"
    by auto
  with assms show ?thesis
    by (simp add: publishNoteRecursively.simps leave_node_def copy_failed_def enter_node_def)
qed

lemma publishNoteRecursively_copy_succeeded:
  assumes "path file \<notin> visited st" and "path file \<notin> processing st" and "depth \<le> maxDepth'"
    and "copyFileToTarget w s file = (ops, Inr u)"
  shows "publishNoteRecursively w s file st depth maxDepth'
    = leave_node (path file)
        (publishLinkedFiles w s (getLinkedFiles w s file)
           (copy_succeeded (path file) ops (enter_node (path file) st)) (depth + 1) maxDepth')"
  using assms by (simp add: publishNoteRecursively.simps)

lemma copyFileToTarget_no_ReadLinks: "ReadLinks p \<notin> set (fst (copyFileToTarget w s file))"
  by (auto simp: copyFileToTarget_def split: sum.splits option.splits)

lemma copyFileToTarget_message:
  "snd (copyFileToTarget w s file) = Inl message \<Longrightarrow>
     \<exists>cause. message = ''Failed to copy '' @ path file @ '': '' @ cause"
  by (auto simp: copyFileToTarget_def split: sum.splits option.splits)

text \<open>
  C4, as amended. When \<^verbatim>\<open>copyFileToTarget\<close> throws for a node that passes the guard and
  the depth check, the call returns the state it was given with three changes: the string
  \<^verbatim>\<open>Error processing <path>: <message>\<close> is appended to \<^verbatim>\<open>errors\<close>, the path is added
  to \<^verbatim>\<open>visited\<close>, and the storage calls of the failed copy are logged. So the path is not
  added to \<^verbatim>\<open>publishedFiles\<close>, it is no longer in \<^verbatim>\<open>processing\<close>, and the links of the
  failed node are neither read nor walked. The walk is not aborted: the loop over the
  siblings of the node goes on from that state.
\<close>

theorem failed_copy_skips_links:
  assumes "path file \<notin> visited st" and "path file \<notin> processing st" and "depth \<le> maxDepth'"
    and "snd (copyFileToTarget w s file) = Inl message"
  shows "publishNoteRecursively w s file st depth maxDepth'
      = st\<lparr>errors := errors st @ [''Error processing '' @ path file @ '': '' @ message],
           visited := insert (path file) (visited st),
           storage_log := storage_log st @ fst (copyFileToTarget w s file)\<rparr>
    \<and> ReadLinks (path file) \<notin> set (fst (copyFileToTarget w s file))
    \<and> publishLinkedFiles w s (file # siblings) st depth maxDepth'
      = publishLinkedFiles w s siblings
          (st\<lparr>errors := errors st @ [''Error processing '' @ path file @ '': '' @ message],
              visited := insert (path file) (visited st),
              storage_log := storage_log st @ fst (copyFileToTarget w s file)\<rparr>)
          depth maxDepth'"
proof -
  from assms(4) have "copyFileToTarget w s file = (fst (copyFileToTarget w s file), Inl message)"
    by (cases "copyFileToTarget w s file") simp
  from publishNoteRecursively_copy_failed [OF assms(1-3) this]
  show ?thesis
    by (simp add: copyFileToTarget_no_ReadLinks)
qed

text \<open>
  A vault in which the copy of the root fails on writing; the sibling B is still
  published.
\<close>

theorem failed_copy_skips_links_witness:
  "path (md_note ''root'') \<notin> visited new_result
   \<and> path (md_note ''root'') \<notin> processing new_result
   \<and> snd (copyFileToTarget failing_vault default_settings (md_note ''root''))
       = Inl ''Failed to copy root.md: disk full''
   \<and> publishNoteRecursively failing_vault default_settings (md_note ''root'') new_result 0 1
       = new_result\<lparr>errors := [''Error processing root.md: Failed to copy root.md: disk full''],
            visited := {''root.md''},
            storage_log := [ReadSource ''root.md'', WriteCopy ''700_Publish/root.md'']\<rparr>
   \<and> publishedFiles
        (publishLinkedFiles failing_vault default_settings [md_note ''root'', md_note ''B'']
           new_result 0 1) = {''B.md''}"
proof -
  have a: "path (md_note ''root'') \<notin> visited new_result"
    and b: "path (md_note ''root'') \<notin> processing new_result"
    by (simp_all add: new_result_def)
  have c: "snd (copyFileToTarget failing_vault default_settings (md_note ''root''))
       = Inl ''Failed to copy root.md: disk full''"
    by code_simp
  have d: "publishedFiles
        (publishLinkedFiles failing_vault default_settings [md_note ''B'']
          (new_result\<lparr>errors := errors new_result
                @ [''Error processing '' @ path (md_note ''root'') @ '': ''
                   @ ''Failed to copy root.md: disk full''],
              visited := insert (path (md_note ''root'')) (visited new_result),
              storage_log := storage_log new_result
                @ fst (copyFileToTarget failing_vault default_settings (md_note ''root''))\<rparr>)
          0 1) = {''B.md''}"
    by code_simp
  have e: "new_result\<lparr>errors := errors new_result
                @ [''Error processing '' @ path (md_note ''root'') @ '': ''
                   @ ''Failed to copy root.md: disk full''],
              visited := insert (path (md_note ''root'')) (visited new_result),
              storage_log := storage_log new_result
                @ fst (copyFileToTarget failing_vault default_settings (md_note ''root''))\<rparr>
      = new_result\<lparr>errors := [''Error processing root.md: Failed to copy root.md: disk full''],
            visited := {''root.md''},
            storage_log := [ReadSource ''root.md'', WriteCopy ''700_Publish/root.md'']\<rparr>"
    by code_simp
  from failed_copy_skips_links [OF a b _ c, of 0 1 "[md_note ''B'']"] a b c d e
  show ?thesis
    by simp
qed

text \<open>
  The claim as first stated fails: the root links to A, whose copy would succeed, but
  after the failed copy of the root the walk ends with A neither published nor visited,
  and without any storage call for A.
\<close>

theorem failed_copy_links_not_followed_counterexample:
  "getLinkedFiles failing_vault default_settings (md_note ''root'') = [md_note ''A'']
   \<and> snd (copyFileToTarget failing_vault default_settings (md_note ''A'')) = Inr ()
   \<and> publishNoteRecursively failing_vault default_settings (md_note ''root'') new_result 0 1
       = \<lparr>publishedFiles = {}, skippedFiles = {},
          errors = [''Error processing root.md: Failed to copy root.md: disk full''],
          visited = {''root.md''}, processing = {},
          storage_log = [ReadSource ''root.md'', WriteCopy ''700_Publish/root.md'']\<rparr>"
  by code_simp

text \<open>
  C3, as amended. The bound of the walk is \<^verbatim>\<open>options.maxDepth || settings.maxDepth\<close>; it
  is 0 only when \<^verbatim>\<open>options.maxDepth\<close> is absent or 0 and \<^verbatim>\<open>settings.maxDepth\<close> is 0. For a
  valid publish call with \<^verbatim>\<open>includeLinked\<close> and such a bound, \<^verbatim>\<open>copyFileToTarget\<close> is
  called for the root only; when that copy succeeds, the root is the one published path
  and the skipped paths are those of the documents the root links to, the root itself
  excepted.
\<close>

theorem zero_bound_publishes_root_only:
  assumes "extension root = ''md''" and "targetFolderPath s \<noteq> []" and "includeLinked options"
    and "effectiveMaxDepth s options = 0"
  shows "materialized (report_storage (publishNote w s (Some root) options)) = [path root]
    \<and> (snd (copyFileToTarget w s root) = Inr () \<longrightarrow>
         publishedFiles (report_result (publishNote w s (Some root) options)) = {path root}
         \<and> skippedFiles (report_result (publishNote w s (Some root) options))
             = path ` set (getLinkedFiles w s root) - {path root})
    \<and> (opt_maxDepth options = None \<or> opt_maxDepth options = Some 0) \<and> maxDepth s = 0"
proof -
  let ?st = "new_result\<lparr>visited := {}, processing := {}\<rparr>"
  let ?r = "publishNoteRecursively w s root ?st 0 0"
  from assms have run: "publishNote w s (Some root) options =
      \<lparr>report_result = result_of ?r, report_storage = storage_log ?r,
       report_clipboard = (if publishedFiles ?r \<noteq> {} then publishedUrl s root else None)\<rparr>"
    by (simp add: publishNote_def validatePublishPrerequisites_def publishNoteWithLinks_def Let_def)
  have fresh: "path root \<notin> visited ?st" "path root \<notin> processing ?st"
    by simp_all
  obtain ops res where c: "copyFileToTarget w s root = (ops, res)"
    by (cases "copyFileToTarget w s root")
  then have m: "materialized ops = [path root]"
    using copyFileToTarget_materialized [of w s root] by simp
  have "materialized (storage_log ?r) = [path root]
    \<and> (res = Inr () \<longrightarrow> publishedFiles ?r = {path root}
         \<and> skippedFiles ?r = path ` set (getLinkedFiles w s root) - {path root})"
  proof (cases res)
    case (Inl message)
    with publishNoteRecursively_copy_failed [OF fresh _ c [unfolded Inl], of 0] m
    show ?thesis
      by (simp add: new_result_def)
  next
    case (Inr u)
    with publishNoteRecursively_copy_succeeded [OF fresh _ c [unfolded Inr], of 0] m
    show ?thesis
      by (auto simp: publishLinkedFiles_beyond new_result_def leave_node_def copy_succeeded_def
          enter_node_def materialized_append)
  qed
  moreover from assms(4) have "(opt_maxDepth options = None \<or> opt_maxDepth options = Some 0)
      \<and> maxDepth s = 0"
    by (auto simp: effectiveMaxDepth_def split: option.splits if_splits)
  ultimately show ?thesis
    using c by (simp add: run result_of_def)
qed

text \<open>A vault whose root links to A and to itself, with both bounds 0.\<close>

theorem zero_bound_publishes_root_only_witness:
  "extension (md_note ''root'') = ''md''
   \<and> targetFolderPath (default_settings\<lparr>maxDepth := 0\<rparr>) \<noteq> []
   \<and> includeLinked (linked_with_bound (Some 0))
   \<and> effectiveMaxDepth (default_settings\<lparr>maxDepth := 0\<rparr>) (linked_with_bound (Some 0)) = 0
   \<and> snd (copyFileToTarget pair_vault (default_settings\<lparr>maxDepth := 0\<rparr>) (md_note ''root'')) = Inr ()
   \<and> materialized (report_storage
        (publishNote pair_vault (default_settings\<lparr>maxDepth := 0\<rparr>) (Some (md_note ''root''))
           (linked_with_bound (Some 0)))) = [''root.md'']
   \<and> publishedFiles (report_result
        (publishNote pair_vault (default_settings\<lparr>maxDepth := 0\<rparr>) (Some (md_note ''root''))
           (linked_with_bound (Some 0)))) = {''root.md''}
   \<and> skippedFiles (report_result
        (publishNote pair_vault (default_settings\<lparr>maxDepth := 0\<rparr>) (Some (md_note ''root''))
           (linked_with_bound (Some 0)))) = {''A.md''}"
proof -
  let ?s = "default_settings\<lparr>maxDepth := 0\<rparr>"
  have a: "extension (md_note ''root'') = ''md''"
    and b: "targetFolderPath ?s \<noteq> []"
    and c: "includeLinked (linked_with_bound (Some 0))"
    and d: "effectiveMaxDepth ?s (linked_with_bound (Some 0)) = 0"
    by (simp_all add: md_note_def default_settings_def linked_with_bound_def effectiveMaxDepth_def)
  have e: "snd (copyFileToTarget pair_vault ?s (md_note ''root'')) = Inr ()"
    by code_simp
  have f: "path ` set (getLinkedFiles pair_vault ?s (md_note ''root'')) - {path (md_note ''root'')}
      = {''A.md''}"
    by code_simp
  have g: "path (md_note ''root'') = ''root.md''"
    by (simp add: md_note_def)
  from zero_bound_publishes_root_only [OF a b c d, of pair_vault] a b c d e f g
  show ?thesis
    by simp
qed

text \<open>
  The claim as first stated fails: with \<^verbatim>\<open>options.maxDepth = 0\<close> and the default
  \<^verbatim>\<open>settings.maxDepth = 5\<close> the walk uses the bound 5, and the documents the root links to
  are published, not skipped.
\<close>

theorem zero_option_uses_settings_counterexample:
  "opt_maxDepth (linked_with_bound (Some 0)) = Some 0
   \<and> includeLinked (linked_with_bound (Some 0))
   \<and> maxDepth default_settings = 5
   \<and> getLinkedFiles pair_vault default_settings (md_note ''root'') = [md_note ''A'', md_note ''root'']
   \<and> report_result
        (publishNote pair_vault default_settings (Some (md_note ''root'')) (linked_with_bound (Some 0)))
       = \<lparr>publishedFiles = {''root.md'', ''A.md'', ''B.md''}, skippedFiles = {}, errors = []\<rparr>"
  by code_simp

lemma walk_skipped_sound:
  "depth \<le> Suc maxDepth' \<Longrightarrow>
     skippedFiles (publishNoteRecursively w s file st depth maxDepth')
       \<subseteq> skippedFiles st \<union> path ` reach_exact w s (Suc maxDepth' - depth) file"
  "depth \<le> Suc maxDepth' \<Longrightarrow>
     skippedFiles (publishLinkedFiles w s files st depth maxDepth')
       \<subseteq> skippedFiles st \<union> (\<Union>g \<in> set files. path ` reach_exact w s (Suc maxDepth' - depth) g)"
proof (induction w s "file" st depth maxDepth' and w s files st depth maxDepth'
    rule: publishNoteRecursively_publishLinkedFiles.induct)
  case (1 w s f st depth m)
  show ?case
  proof (cases "path f \<in> visited st \<or> path f \<in> processing st")
    case True
    then show ?thesis
      by (simp add: publishNoteRecursively.simps)
  next
    case guard: False
    show ?thesis
    proof (cases "depth > m")
      case True
      with "1.prems" have "Suc m - depth = 0" by simp
      with guard True show ?thesis
        by (simp add: publishNoteRecursively.simps)
    next
      case False
      obtain ops res where c: "copyFileToTarget w s f = (ops, res)"
        by (cases "copyFileToTarget w s f")
      show ?thesis
      proof (cases res)
        case (Inl message)
        with guard False c show ?thesis
          by (simp add: publishNoteRecursively.simps leave_node_def copy_failed_def enter_node_def)
      next
        case (Inr u)
        let ?st1 = "copy_succeeded (path f) ops (enter_node (path f) st)"
        let ?r = "publishLinkedFiles w s (getLinkedFiles w s f) ?st1 (depth + 1) m"
        from False have "depth + 1 \<le> Suc m" by simp
        from "1.IH" [OF guard False c [symmetric] Inr this]
        have "skippedFiles ?r \<subseteq> skippedFiles st
            \<union> (\<Union>g \<in> set (getLinkedFiles w s f). path ` reach_exact w s (Suc m - (depth + 1)) g)"
          by (simp add: copy_succeeded_def enter_node_def)
        moreover from False have "Suc m - depth = Suc (Suc m - (depth + 1))"
          by simp
        then have "reach_exact w s (Suc m - depth) f
            = (\<Union>g \<in> set (getLinkedFiles w s f). reach_exact w s (Suc m - (depth + 1)) g)"
          by (simp only: reach_exact.simps)
        ultimately have "skippedFiles ?r \<subseteq> skippedFiles st \<union> path ` reach_exact w s (Suc m - depth) f"
          by auto
        with guard False c Inr show ?thesis
          by (simp add: publishNoteRecursively.simps leave_node_def)
      qed
    qed
  qed
next
  case (2 w s st depth m)
  then show ?case by simp
next
  case (3 w s linkedFile linkedFiles st depth m)
  from "3.IH"(1) [OF "3.prems"] "3.IH"(2) [OF "3.prems"] show ?case
    by auto
qed

text \<open>
  C5, as amended. A call of the walk on a node whose path is neither visited nor in
  processing, at a depth up to the bound (so also at the bound exactly), hands the node to
  \<^verbatim>\<open>copyFileToTarget\<close> and publishes it when the copy succeeds. Such a call beyond the
  bound (so also at the bound plus one) adds the path to \<^verbatim>\<open>skippedFiles\<close> and changes
  nothing else. A call on a node whose path is visited or in processing changes nothing,
  at any depth: the guard comes before the depth check, and a path it drops is not
  recorded by that call. After a walk from the root, every skipped path is the path of a
  document at the end of a chain of exactly \<open>maxDepth + 1\<close> links from the root, links
  as \<^verbatim>\<open>getLinkedFiles\<close> returns them, so never an excluded one.
\<close>

theorem depth_bound_per_call:
  "(path file \<notin> visited st \<and> path file \<notin> processing st \<and> depth \<le> maxDepth' \<longrightarrow>
      path file \<in> set (materialized (storage_log (publishNoteRecursively w s file st depth maxDepth')))
      \<and> (snd (copyFileToTarget w s file) = Inr () \<longrightarrow>
           path file \<in> publishedFiles (publishNoteRecursively w s file st depth maxDepth')))
   \<and> (path file \<notin> visited st \<and> path file \<notin> processing st \<and> maxDepth' < depth \<longrightarrow>
      publishNoteRecursively w s file st depth maxDepth'
        = st\<lparr>skippedFiles := insert (path file) (skippedFiles st)\<rparr>)
   \<and> (path file \<in> visited st \<or> path file \<in> processing st \<longrightarrow>
      publishNoteRecursively w s file st depth maxDepth' = st)
   \<and> skippedFiles (publishNoteRecursively w s root new_result 0 maxDepth')
        \<subseteq> path ` reach_exact w s (Suc maxDepth') root"
proof -
  have "path file \<in> set (materialized (storage_log (publishNoteRecursively w s file st depth maxDepth')))
      \<and> (snd (copyFileToTarget w s file) = Inr () \<longrightarrow>
           path file \<in> publishedFiles (publishNoteRecursively w s file st depth maxDepth'))"
    if fresh: "path file \<notin> visited st" "path file \<notin> processing st" and d: "depth \<le> maxDepth'"
  proof -
    obtain ops res where c: "copyFileToTarget w s file = (ops, res)"
      by (cases "copyFileToTarget w s file")
    then have m: "materialized ops = [path file]"
      using copyFileToTarget_materialized [of w s "file"] by simp
    show ?thesis
    proof (cases res)
      case (Inl message)
      with publishNoteRecursively_copy_failed [OF fresh d c [unfolded Inl]] m c
      show ?thesis
        by (simp add: materialized_append)
    next
      case (Inr u)
      let ?st1 = "copy_succeeded (path file) ops (enter_node (path file) st)"
      let ?r = "publishLinkedFiles w s (getLinkedFiles w s file) ?st1 (depth + 1) maxDepth'"
      have "extends ?st1 ?r"
        by (rule walk_extends)
      then obtain more where "storage_log ?r = storage_log ?st1 @ more"
        and "publishedFiles ?st1 \<subseteq> publishedFiles ?r"
        by (auto simp: extends_def)
      then have "path file \<in> set (materialized (storage_log ?r))" "path file \<in> publishedFiles ?r"
        using m by (auto simp: copy_succeeded_def enter_node_def materialized_append)
      with publishNoteRecursively_copy_succeeded [OF fresh d c [unfolded Inr]]
      show ?thesis
        by (simp add: leave_node_def)
    qed
  qed
  moreover have "skippedFiles (publishNoteRecursively w s root new_result 0 maxDepth')
        \<subseteq> path ` reach_exact w s (Suc maxDepth') root"
    using walk_skipped_sound(1) [of 0 maxDepth' w s root new_result]
    by (simp add: new_result_def)
  ultimately show ?thesis
    by (simp add: publishNoteRecursively_beyond publishNoteRecursively_guarded)
qed

text \<open>The three kinds of call and the final inclusion, in a vault of three notes.\<close>

theorem depth_bound_per_call_witness:
  "path (md_note ''A'') \<notin> visited (new_result\<lparr>processing := {''root.md''}\<rparr>)
   \<and> path (md_note ''A'') \<notin> processing (new_result\<lparr>processing := {''root.md''}\<rparr>)
   \<and> snd (copyFileToTarget triangle_vault default_settings (md_note ''A'')) = Inr ()
   \<and> path (md_note ''A'') \<in> set (materialized (storage_log
        (publishNoteRecursively triangle_vault default_settings (md_note ''A'')
           (new_result\<lparr>processing := {''root.md''}\<rparr>) 1 1)))
   \<and> path (md_note ''A'') \<in> publishedFiles
        (publishNoteRecursively triangle_vault default_settings (md_note ''A'')
           (new_result\<lparr>processing := {''root.md''}\<rparr>) 1 1)
   \<and> publishNoteRecursively triangle_vault default_settings (md_note ''A'')
        (new_result\<lparr>processing := {''root.md''}\<rparr>) 2 1
       = new_result\<lparr>processing := {''root.md''}, skippedFiles := {''A.md''}\<rparr>
   \<and> path (md_note ''root'') \<in> processing (new_result\<lparr>processing := {''root.md''}\<rparr>)
   \<and> publishNoteRecursively triangle_vault default_settings (md_note ''root'')
        (new_result\<lparr>processing := {''root.md''}\<rparr>) 2 1
       = new_result\<lparr>processing := {''root.md''}\<rparr>
   \<and> skippedFiles (publishNoteRecursively triangle_vault default_settings (md_note ''root'') new_result 0 1)
       \<subseteq> path ` reach_exact triangle_vault default_settings 2 (md_note ''root'')
   \<and> path ` reach_exact triangle_vault default_settings 2 (md_note ''root'') = {''B.md'', ''root.md''}"
proof -
  let ?st = "new_result\<lparr>processing := {''root.md''}\<rparr>"
  have a: "path (md_note ''A'') \<notin> visited ?st" "path (md_note ''A'') \<notin> processing ?st"
    and r: "path (md_note ''root'') \<in> processing ?st"
    by (simp_all add: new_result_def md_note_def)
  have c: "snd (copyFileToTarget triangle_vault default_settings (md_note ''A'')) = Inr ()"
    by code_simp
  have e: "path ` reach_exact triangle_vault default_settings 2 (md_note ''root'') = {''B.md'', ''root.md''}"
    by code_simp
  have f: "?st\<lparr>skippedFiles := insert (path (md_note ''A'')) (skippedFiles ?st)\<rparr>
      = new_result\<lparr>processing := {''root.md''}, skippedFiles := {''A.md''}\<rparr>"
    by (simp add: new_result_def md_note_def)
  note at_bound = depth_bound_per_call
    [of "md_note ''A''" ?st 1 1 triangle_vault default_settings "md_note ''root''"]
  note beyond = depth_bound_per_call
    [of "md_note ''A''" ?st 2 1 triangle_vault default_settings "md_note ''root''"]
  note dropped = depth_bound_per_call
    [of "md_note ''root''" ?st 2 1 triangle_vault default_settings "md_note ''root''"]
  from at_bound a c
  have p1: "path (md_note ''A'') \<in> set (materialized (storage_log
        (publishNoteRecursively triangle_vault default_settings (md_note ''A'') ?st 1 1)))"
    and p2: "path (md_note ''A'') \<in> publishedFiles
        (publishNoteRecursively triangle_vault default_settings (md_note ''A'') ?st 1 1)"
    by simp_all
  from beyond a f
  have p3: "publishNoteRecursively triangle_vault default_settings (md_note ''A'') ?st 2 1
       = new_result\<lparr>processing := {''root.md''}, skippedFiles := {''A.md''}\<rparr>"
    by simp
  from dropped r
  have p4: "publishNoteRecursively triangle_vault default_settings (md_note ''root'') ?st 2 1 = ?st"
    by blast
  from at_bound
  have "skippedFiles (publishNoteRecursively triangle_vault default_settings (md_note ''root'') new_result 0 1)
       \<subseteq> path ` reach_exact triangle_vault default_settings (Suc 1) (md_note ''root'')"
    by blast
  then have p5: "skippedFiles (publishNoteRecursively triangle_vault default_settings (md_note ''root'') new_result 0 1)
       \<subseteq> path ` reach_exact triangle_vault default_settings 2 (md_note ''root'')"
    by (simp only: Suc_1)
  from a r c e p1 p2 p3 p4 p5 show ?thesis
    by blast
qed

text \<open>
  The claim as first stated fails with the bound 1: the root links to A and B, and A
  links to B and back to the root. B is met first through A, at depth 2, and skipped; it
  is met again from the root, at depth 1, and published, so its path is in both sets. The
  root is met at depth 2 through A and is not recorded in \<^verbatim>\<open>skippedFiles\<close>.
\<close>

theorem skipped_and_published_counterexample:
  "getLinkedFiles triangle_vault default_settings (md_note ''root'') = [md_note ''A'', md_note ''B'']
   \<and> getLinkedFiles triangle_vault default_settings (md_note ''A'') = [md_note ''B'', md_note ''root'']
   \<and> getLinkedFiles triangle_vault default_settings (md_note ''B'') = []
   \<and> publishNoteRecursively triangle_vault default_settings (md_note ''root'') new_result 0 1
       = \<lparr>publishedFiles = {''root.md'', ''A.md'', ''B.md''}, skippedFiles = {''B.md''}, errors = [],
          visited = {''root.md'', ''A.md'', ''B.md''}, processing = {},
          storage_log =
            [ReadSource ''root.md'', WriteCopy ''700_Publish/root.md'',
             RewriteCopy ''700_Publish/root.md'', ReadLinks ''root.md'',
             ReadSource ''A.md'', WriteCopy ''700_Publish/A.md'',
             RewriteCopy ''700_Publish/A.md'', ReadLinks ''A.md'',
             ReadSource ''B.md'', WriteCopy ''700_Publish/B.md'',
             RewriteCopy ''700_Publish/B.md'', ReadLinks ''B.md'']\<rparr>"
  by code_simp

section \<open>Validation\<close>

text \<open>
  C9. When no file is given, or the extension of the file is not \<^verbatim>\<open>md\<close>, or the target
  folder path of the settings is empty, \<^verbatim>\<open>publishNote\<close> returns a result with no published
  and no skipped path and with exactly one error, the message of the first check that
  fails; it makes no storage call and writes nothing to the clipboard.
\<close>

theorem validation_failure_returns_at_once:
  assumes "file = None \<or> (\<exists>f. file = Some f \<and> extension f \<noteq> ''md'') \<or> targetFolderPath s = []"
  shows "publishNote w s file options =
     \<lparr>report_result =
        \<lparr>publishedFiles = {}, skippedFiles = {},
         errors = [case file of
                     None \<Rightarrow> ''No file provided''
                   | Some f \<Rightarrow>
                       if extension f \<noteq> ''md'' then ''Can only publish markdown files''
                       else ''Please configure target folder path in settings'']\<rparr>,
      report_storage = [],
      report_clipboard = None\<rparr>"
  using assms
  by (auto simp: publishNote_def validatePublishPrerequisites_def split: option.splits)

text \<open>One call for each of the three checks.\<close>

theorem validation_failure_returns_at_once_witness:
  "publishNote pair_vault default_settings None (linked_with_bound None)
     = \<lparr>report_result = \<lparr>publishedFiles = {}, skippedFiles = {}, errors = [''No file provided'']\<rparr>,
        report_storage = [], report_clipboard = None\<rparr>
   \<and> extension ((md_note ''root'')\<lparr>extension := ''png''\<rparr>) \<noteq> ''md''
   \<and> publishNote pair_vault default_settings (Some ((md_note ''root'')\<lparr>extension := ''png''\<rparr>))
       (linked_with_bound None)
     = \<lparr>report_result =
          \<lparr>publishedFiles = {}, skippedFiles = {}, errors = [''Can only publish markdown files'']\<rparr>,
        report_storage = [], report_clipboard = None\<rparr>
   \<and> targetFolderPath (default_settings\<lparr>targetFolderPath := []\<rparr>) = []
   \<and> publishNote pair_vault (default_settings\<lparr>targetFolderPath := []\<rparr>) (Some (md_note ''root''))
       (linked_with_bound None)
     = \<lparr>report_result =
          \<lparr>publishedFiles = {}, skippedFiles = {},
           errors = [''Please configure target folder path in settings'']\<rparr>,
        report_storage = [], report_clipboard = None\<rparr>"
proof -
  have a: "extension ((md_note ''root'')\<lparr>extension := ''png''\<rparr>) \<noteq> ''md''"
    and b: "targetFolderPath (default_settings\<lparr>targetFolderPath := []\<rparr>) = []"
    and c: "extension (md_note ''root'') = ''md''"
    by (simp_all add: md_note_def)
  from validation_failure_returns_at_once
         [of None default_settings pair_vault "linked_with_bound None"]
       validation_failure_returns_at_once
         [of "Some ((md_note ''root'')\<lparr>extension := ''png''\<rparr>)" default_settings pair_vault
            "linked_with_bound None"]
       validation_failure_returns_at_once
         [of "Some (md_note ''root'')" "default_settings\<lparr>targetFolderPath := []\<rparr>" pair_vault
            "linked_with_bound None"]
       a b c
  show ?thesis
    by simp
qed

text \<open>A call that passes the validation reads the file it is given.\<close>

lemma valid_publish_copies_root:
  assumes "extension f = ''md''" and "targetFolderPath s \<noteq> []"
  shows "path f \<in> set (materialized (report_storage (publishNote w s (Some f) options)))"
proof (cases "includeLinked options")
  case True
  let ?st = "new_result\<lparr>visited := {}, processing := {}\<rparr>"
  obtain ops res where c: "copyFileToTarget w s f = (ops, res)"
    by (cases "copyFileToTarget w s f")
  then have m: "materialized ops = [path f]"
    using copyFileToTarget_materialized [of w s f] by simp
  have fresh: "path f \<notin> visited ?st" "path f \<notin> processing ?st"
    by simp_all
  have "path f \<in> set (materialized (storage_log
      (publishNoteRecursively w s f ?st 0 (effectiveMaxDepth s options))))"
  proof (cases res)
    case (Inl message)
    with publishNoteRecursively_copy_failed [OF fresh _ c [unfolded Inl]] m
    show ?thesis
      by (simp add: materialized_append)
  next
    case (Inr u)
    let ?st1 = "copy_succeeded (path f) ops (enter_node (path f) ?st)"
    let ?r = "publishLinkedFiles w s (getLinkedFiles w s f) ?st1 (0 + 1) (effectiveMaxDepth s options)"
    have "extends ?st1 ?r"
      by (rule walk_extends)
    then obtain more where "storage_log ?r = storage_log ?st1 @ more"
      by (auto simp: extends_def)
    then have "path f \<in> set (materialized (storage_log ?r))"
      using m by (simp add: copy_succeeded_def enter_node_def materialized_append)
    with publishNoteRecursively_copy_succeeded [OF fresh _ c [unfolded Inr]]
    show ?thesis
      by (simp add: leave_node_def)
  qed
  with True assms show ?thesis
    by (simp add: publishNote_def validatePublishPrerequisites_def publishNoteWithLinks_def Let_def)
next
  case False
  have "path f \<in> set (materialized (storage_log (publishSingleNote w s f new_result)))"
    using copyFileToTarget_materialized [of w s f]
    by (cases "copyFileToTarget w s f")
      (auto simp: publishSingleNote_def materialized_append split: sum.splits)
  with False assms show ?thesis
    by (simp add: publishNote_def validatePublishPrerequisites_def Let_def)
qed

section \<open>Exclusion\<close>

lemma set_map_filter_iff: "y \<in> set (List.map_filter f xs) \<longleftrightarrow> (\<exists>x \<in> set xs. f x = Some y)"
  by (induction xs) (auto split: option.splits)

lemma getLinkedFiles_iff:
  "g \<in> set (getLinkedFiles w s file) \<longleftrightarrow>
     (\<exists>content t. vault_read w (path file) = Inr content \<and> t \<in> set (linkTexts content)
        \<and> followLink w s file t = Some g)"
  by (cases "vault_read w (path file)") (auto simp: getLinkedFiles_def set_map_filter_iff)

text \<open>
  C8. \<^verbatim>\<open>isExcluded\<close> is true exactly when some pattern of the list matches the link text:
  a pattern that compiles is tested as a regular expression, a pattern that does not
  compile is searched as a substring. It is false for the empty list. An excluded link
  text is never followed, and every file that \<^verbatim>\<open>getLinkedFiles\<close> returns is the target of
  a link text of the document that is not excluded.
\<close>

theorem isExcluded_iff:
  "(isExcluded w s linkText \<longleftrightarrow>
      (\<exists>pattern \<in> set (excludePatterns s).
         case RegExp w pattern of
           Some regex_test \<Rightarrow> regex_test linkText
         | None \<Rightarrow> (\<exists>u v. linkText = u @ pattern @ v)))
   \<and> (excludePatterns s = [] \<longrightarrow> \<not> isExcluded w s linkText)
   \<and> (isExcluded w s linkText \<longrightarrow> followLink w s file linkText = None)
   \<and> (g \<in> set (getLinkedFiles w s file) \<longrightarrow>
        (\<exists>content t. vault_read w (path file) = Inr content \<and> t \<in> set (linkTexts content)
           \<and> \<not> isExcluded w s t \<and> getFirstLinkpathDest w t (path file) = Some g))"
proof -
  have "pattern_matches w linkText pattern \<longleftrightarrow>
      (case RegExp w pattern of
         Some regex_test \<Rightarrow> regex_test linkText
       | None \<Rightarrow> (\<exists>u v. linkText = u @ pattern @ v))" for pattern
    by (simp add: pattern_matches_def includes_str_iff split: option.splits)
  then have "isExcluded w s linkText \<longleftrightarrow>
      (\<exists>pattern \<in> set (excludePatterns s).
         case RegExp w pattern of
           Some regex_test \<Rightarrow> regex_test linkText
         | None \<Rightarrow> (\<exists>u v. linkText = u @ pattern @ v))"
    by (simp add: isExcluded_def list_ex_iff)
  moreover have "excludePatterns s = [] \<longrightarrow> \<not> isExcluded w s linkText"
    by (simp add: isExcluded_def)
  moreover have "isExcluded w s linkText \<longrightarrow> followLink w s file linkText = None"
    by (simp add: followLink_def)
  moreover have "\<not> isExcluded w s t \<and> getFirstLinkpathDest w t (path file) = Some g"
    if "followLink w s file t = Some g" for t
    using that by (auto simp: followLink_def split: if_splits option.splits)
  then have "g \<in> set (getLinkedFiles w s file) \<longrightarrow>
        (\<exists>content t. vault_read w (path file) = Inr content \<and> t \<in> set (linkTexts content)
           \<and> \<not> isExcluded w s t \<and> getFirstLinkpathDest w t (path file) = Some g)"
    unfolding getLinkedFiles_iff by blast
  ultimately show ?thesis
    by blast
qed

text \<open>
  A vault with a pattern that compiles and one that does not: only the links to A
  remain.
\<close>

theorem isExcluded_iff_witness:
  "isExcluded exclusion_vault exclusion_settings ''Private diary''
   \<and> isExcluded exclusion_vault exclusion_settings ''B [draft''
   \<and> \<not> isExcluded exclusion_vault exclusion_settings ''A''
   \<and> excludePatterns default_settings = []
   \<and> \<not> isExcluded exclusion_vault default_settings ''Private diary''
   \<and> followLink exclusion_vault exclusion_settings (md_note ''root'') ''Private diary'' = None
   \<and> linkTexts ''[[Private diary]], [[A]], [[ B [draft ]] and [[A|again]]''
       = [''Private diary'', ''A'', ''B [draft'', ''A'']
   \<and> getLinkedFiles exclusion_vault exclusion_settings (md_note ''root'') = [md_note ''A'', md_note ''A'']
   \<and> getLinkedFiles exclusion_vault default_settings (md_note ''root'')
       = [md_note ''Private diary'', md_note ''A'', md_note ''B [draft'', md_note ''A'']
   \<and> md_note ''A'' \<in> set (getLinkedFiles exclusion_vault exclusion_settings (md_note ''root''))
   \<and> (\<exists>content t. vault_read exclusion_vault (path (md_note ''root'')) = Inr content
         \<and> t \<in> set (linkTexts content)
         \<and> \<not> isExcluded exclusion_vault exclusion_settings t
         \<and> getFirstLinkpathDest exclusion_vault t (path (md_note ''root'')) = Some (md_note ''A''))"
proof -
  have a: "RegExp exclusion_vault ''^Private'' = Some (\<lambda>t. startsWith t ''Private'')"
    and b: "RegExp exclusion_vault ''[draft'' = None"
    and c: "excludePatterns exclusion_settings = [''^Private'', ''[draft'']"
    and d: "excludePatterns default_settings = []"
    by (simp_all add: exclusion_vault_def exclusion_settings_def default_settings_def vault_of_def)
  have e: "startsWith ''Private diary'' ''Private''" "\<not> startsWith ''A'' ''Private''"
    by (simp_all add: startsWith_def)
  have f: "\<exists>u v. ''B [draft'' = u @ ''[draft'' @ v"
    by (rule exI [of _ "''B ''"], rule exI [of _ "[]"]) simp
  have g: "\<not> (\<exists>u v. ''A'' = u @ ''[draft'' @ v)"
    by (auto simp: append_eq_Cons_conv)
  note at = isExcluded_iff [of exclusion_vault exclusion_settings _ "md_note ''root''" "md_note ''A''"]
  from at [of "''Private diary''"] a c e
  have p1: "isExcluded exclusion_vault exclusion_settings ''Private diary''"
    and p4: "followLink exclusion_vault exclusion_settings (md_note ''root'') ''Private diary'' = None"
    by simp_all
  from at [of "''B [draft''"] b c f
  have p2: "isExcluded exclusion_vault exclusion_settings ''B [draft''"
    by simp
  from at [of "''A''"] a b c e g
  have p3: "\<not> isExcluded exclusion_vault exclusion_settings ''A''"
    by simp
  from isExcluded_iff [of exclusion_vault default_settings "''Private diary''"] d
  have p5: "\<not> isExcluded exclusion_vault default_settings ''Private diary''"
    by simp
  have p6: "linkTexts ''[[Private diary]], [[A]], [[ B [draft ]] and [[A|again]]''
       = [''Private diary'', ''A'', ''B [draft'', ''A'']"
    by code_simp
  have p7: "getLinkedFiles exclusion_vault exclusion_settings (md_note ''root'') = [md_note ''A'', md_note ''A'']"
    by code_simp
  have p8: "getLinkedFiles exclusion_vault default_settings (md_note ''root'')
       = [md_note ''Private diary'', md_note ''A'', md_note ''B [draft'', md_note ''A'']"
    by code_simp
  from p7 have p9: "md_note ''A'' \<in> set (getLinkedFiles exclusion_vault exclusion_settings (md_note ''root''))"
    by simp
  with at [of "''A''"]
  have p10: "\<exists>content t. vault_read exclusion_vault (path (md_note ''root'')) = Inr content
         \<and> t \<in> set (linkTexts content)
         \<and> \<not> isExcluded exclusion_vault exclusion_settings t
         \<and> getFirstLinkpathDest exclusion_vault t (path (md_note ''root'')) = Some (md_note ''A'')"
    by blast
  from p1 p2 p3 p4 p5 p6 p7 p8 p9 p10 d show ?thesis
    by blast
qed

section \<open>The published URL\<close>

text \<open>
  Each step of \<^verbatim>\<open>generatePublishedUrl\<close> computes what the specification words for it.
\<close>

lemma segments_of_separator: "segments_of (0x2F # cs) = [] # segments_of cs"
  by (subst segments_of.simps) simp

lemma segments_of_other:
  assumes "c \<noteq> 0x2F"
  shows "segments_of (c # cs) =
     (case segments_of cs of segment # segments \<Rightarrow> (c # segment) # segments | [] \<Rightarrow> [[c]])"
proof -
  from assms have dw: "dropWhile (\<lambda>u. u \<noteq> 0x2F) (c # cs) = dropWhile (\<lambda>u. u \<noteq> 0x2F) cs"
    and tw: "takeWhile (\<lambda>u. u \<noteq> 0x2F) (c # cs) = c # takeWhile (\<lambda>u. u \<noteq> 0x2F) cs"
    by simp_all
  have a: "segments_of (c # cs) =
      (case dropWhile (\<lambda>u. u \<noteq> 0x2F) cs of
         [] \<Rightarrow> [c # cs]
       | slash # rest \<Rightarrow> (c # takeWhile (\<lambda>u. u \<noteq> 0x2F) cs) # segments_of rest)"
    by (subst segments_of.simps) (simp only: dw tw)
  have b: "segments_of cs =
      (case dropWhile (\<lambda>u. u \<noteq> 0x2F) cs of
         [] \<Rightarrow> [cs]
       | slash # rest \<Rightarrow> takeWhile (\<lambda>u. u \<noteq> 0x2F) cs # segments_of rest)"
    by (subst segments_of.simps) simp
  show ?thesis
  proof (cases "dropWhile (\<lambda>u. u \<noteq> 0x2F) cs")
    case Nil
    show ?thesis
      unfolding a b Nil by simp
  next
    case (Cons slash rest)
    show ?thesis
      unfolding a b Cons by simp
  qed
qed

lemma split_on_segments_of: "split_on 0x2F p = segments_of p"
proof (induction p)
  case Nil
  show ?case
    by (simp add: segments_of.simps)
next
  case (Cons c cs)
  then show ?case
    by (cases "c = 0x2F") (simp_all add: segments_of_separator segments_of_other)
qed

lemma utf16_md: "utf16 ''.md'' = [0x2E, 0x6D, 0x64]"
  by (simp add: utf16_def)

lemma strip_md_without_md: "strip_md p = without_md p"
proof (cases "rev p")
  case Nil
  then show ?thesis
    by (simp add: strip_md_def without_md_def)
next
  case (Cons d r1)
  note p1 = this
  show ?thesis
  proof (cases r1)
    case Nil
    with p1 have "p = [d]"
      by simp
    then show ?thesis
      by (simp add: strip_md_def without_md_def)
  next
    case (Cons m r2)
    note p2 = this
    show ?thesis
    proof (cases r2)
      case Nil
      with p1 p2 have "p = [m, d]"
        by (metis rev.simps rev_rev_ident append_Cons append_Nil)
      then show ?thesis
        by (simp add: strip_md_def without_md_def)
    next
      case (Cons dot front)
      with p1 p2 have p: "p = rev front @ [dot, m, d]"
        by (metis rev.simps rev_rev_ident append_Cons append_Nil append_assoc)
      then show ?thesis
        by (auto simp: strip_md_def without_md_def utf16_md)
    qed
  qed
qed

lemma utf16_and: "utf16 ''--and--'' = [0x2D, 0x2D, 0x61, 0x6E, 0x64, 0x2D, 0x2D]"
  by (simp add: utf16_def)

lemma utf16_hyphen: "utf16 ''-'' = [0x2D]"
  by (simp add: utf16_def)

lemma utf16_slash: "utf16 ''/'' = [0x2F]"
  by (simp add: utf16_def)

lemma ampersand_not_space: "\<not> isWhiteSpace 0x26"
  by (simp add: isWhiteSpace_def)

lemma and_token_not_space: "u \<in> set (utf16 ''--and--'') \<Longrightarrow> \<not> isWhiteSpace u"
  by (auto simp: utf16_and isWhiteSpace_def)

lemma replace_ws_append:
  "(\<And>u. u \<in> set xs \<Longrightarrow> \<not> isWhiteSpace u) \<Longrightarrow> replace_ws (xs @ t) = xs @ replace_ws t"
  by (induction xs) simp_all

lemma replace_ws_run:
  assumes "xs \<noteq> []" and "\<And>u. u \<in> set xs \<Longrightarrow> isWhiteSpace u" and "t = [] \<or> \<not> isWhiteSpace (hd t)"
  shows "replace_ws (xs @ t) = 0x2D # replace_ws t"
proof -
  from assms(1) obtain c cs where xs: "xs = c # cs"
    by (cases xs) auto
  with assms(2) have "dropWhile isWhiteSpace (cs @ t) = dropWhile isWhiteSpace t"
    by (intro dropWhile_append2) simp
  also from assms(3) have "\<dots> = t"
    by (cases t) auto
  finally show ?thesis
    using assms(2) xs by simp
qed

lemma pieces_dropWhile: "pieces (dropWhile isWhiteSpace us) = after_blank (pieces us)"
  by (cases us) simp_all

lemma replace_amp_Nil: "replace_amp [] = []"
  by (simp add: replace_amp.simps)

lemma replace_amp_ampersand:
  "dropWhile isWhiteSpace s = 0x26 # rest \<Longrightarrow>
     replace_amp s = utf16 ''--and--'' @ replace_amp (dropWhile isWhiteSpace rest)"
  by (subst replace_amp.simps) auto

lemma replace_amp_other:
  assumes "s \<noteq> []" and "\<And>rest. dropWhile isWhiteSpace s \<noteq> 0x26 # rest"
  shows "replace_amp s = hd s # replace_amp (tl s)"
proof (cases "dropWhile isWhiteSpace s")
  case Nil
  show ?thesis
    by (subst replace_amp.simps) (simp only: Nil assms(1) list.case if_False)
next
  case (Cons u rest)
  with assms(2) have "u \<noteq> 0x26"
    by auto
  then show ?thesis
    by (subst replace_amp.simps) (simp only: Cons assms(1) list.case if_False)
qed

lemma replace_amp_run:
  "(\<And>rest. dropWhile isWhiteSpace s \<noteq> 0x26 # rest) \<Longrightarrow>
     replace_amp s = takeWhile isWhiteSpace s @ replace_amp (dropWhile isWhiteSpace s)"
proof (induction s)
  case Nil
  show ?case by simp
next
  case (Cons c cs)
  show ?case
  proof (cases "isWhiteSpace c")
    case True
    have "replace_amp (c # cs) = hd (c # cs) # replace_amp (tl (c # cs))"
      using Cons.prems by (intro replace_amp_other) simp_all
    moreover have "replace_amp cs = takeWhile isWhiteSpace cs @ replace_amp (dropWhile isWhiteSpace cs)"
      using Cons.prems True by (intro Cons.IH) simp
    ultimately show ?thesis
      using True by simp
  next
    case False
    then show ?thesis
      by simp
  qed
qed

lemma replace_segment_url_friendly: "replace_ws (replace_amp s) = url_friendly s"
proof (induction s rule: length_induct)
  case (1 s)
  note IH = this
  show ?case
  proof (cases s)
    case Nil
    then show ?thesis
      by (simp add: replace_amp_Nil url_friendly_def)
  next
    case (Cons c cs)
    let ?r = "dropWhile isWhiteSpace cs"
    consider (amp) "c = 0x26" | (space) "isWhiteSpace c" | (other) "c \<noteq> 0x26" "\<not> isWhiteSpace c"
      by blast
    then show ?thesis
    proof cases
      case amp
      have short: "length ?r < length s"
        using Cons length_dropWhile_le [of isWhiteSpace cs] by simp
      have "replace_amp s = utf16 ''--and--'' @ replace_amp ?r"
        using replace_amp_ampersand [of s cs] amp Cons ampersand_not_space by simp
      then have "replace_ws (replace_amp s) = utf16 ''--and--'' @ replace_ws (replace_amp ?r)"
        by (simp add: replace_ws_append and_token_not_space)
      also have "replace_ws (replace_amp ?r) = url_friendly ?r"
        using IH short by blast
      finally show ?thesis
        using amp Cons ampersand_not_space
        by (simp add: url_friendly_def pieces_dropWhile)
    next
      case space
      have s_run: "dropWhile isWhiteSpace s = ?r"
        using space Cons by simp
      have run: "takeWhile isWhiteSpace s \<noteq> []" "\<And>u. u \<in> set (takeWhile isWhiteSpace s) \<Longrightarrow> isWhiteSpace u"
        using space Cons by (auto dest: set_takeWhileD)
      have pieces_s: "pieces s = Blank # pieces ?r"
        using space Cons by simp
      show ?thesis
      proof (cases ?r)
        case Nil
        have "replace_amp s = takeWhile isWhiteSpace s @ replace_amp (dropWhile isWhiteSpace s)"
          by (rule replace_amp_run) (simp only: s_run Nil, simp)
        then have "replace_amp s = takeWhile isWhiteSpace s @ []"
          unfolding s_run Nil replace_amp_Nil .
        then have "replace_ws (replace_amp s) = [0x2D]"
          using replace_ws_run [OF run, of "[]"] by simp
        moreover have "pieces s = [Blank]"
          unfolding pieces_s Nil by simp
        ultimately show ?thesis
          by (simp add: url_friendly_def utf16_hyphen)
      next
        case (Cons d r')
        note r = this
        have d_not_space: "\<not> isWhiteSpace d"
          using hd_dropWhile [of isWhiteSpace cs] r by simp
        show ?thesis
        proof (cases "d = 0x26")
          case True
          have short: "length (dropWhile isWhiteSpace r') < length s"
            using length_dropWhile_le [of isWhiteSpace r'] length_dropWhile_le [of isWhiteSpace cs] r
              \<open>s = c # cs\<close> by simp
          have "replace_amp s = utf16 ''--and--'' @ replace_amp (dropWhile isWhiteSpace r')"
            using replace_amp_ampersand [of s r'] s_run r True by simp
          then have "replace_ws (replace_amp s)
              = utf16 ''--and--'' @ replace_ws (replace_amp (dropWhile isWhiteSpace r'))"
            by (simp add: replace_ws_append and_token_not_space)
          also have "replace_ws (replace_amp (dropWhile isWhiteSpace r'))
              = url_friendly (dropWhile isWhiteSpace r')"
            using IH short by blast
          finally show ?thesis
            using pieces_s r True d_not_space
            by (simp add: url_friendly_def pieces_dropWhile)
        next
          case False
          have short: "length r' < length s"
            using length_dropWhile_le [of isWhiteSpace cs] r \<open>s = c # cs\<close> by simp
          have "replace_amp (d # r') = hd (d # r') # replace_amp (tl (d # r'))"
            using False d_not_space by (intro replace_amp_other) simp_all
          then have "replace_amp ?r = d # replace_amp r'"
            unfolding r by simp
          moreover have "replace_amp s = takeWhile isWhiteSpace s @ replace_amp (dropWhile isWhiteSpace s)"
            using False by (intro replace_amp_run) (simp add: s_run r)
          ultimately have "replace_amp s = takeWhile isWhiteSpace s @ d # replace_amp r'"
            unfolding s_run by simp
          then have "replace_ws (replace_amp s) = 0x2D # replace_ws (d # replace_amp r')"
            using replace_ws_run [OF run, of "d # replace_amp r'"] d_not_space by simp
          also have "\<dots> = 0x2D # d # replace_ws (replace_amp r')"
            using d_not_space by simp
          also have "replace_ws (replace_amp r') = url_friendly r'"
            using IH short by blast
          finally show ?thesis
            using pieces_s r False d_not_space
            by (simp add: url_friendly_def utf16_hyphen)
        qed
      qed
    next
      case other
      have short: "length cs < length s"
        using Cons by simp
      have "replace_amp s = hd s # replace_amp (tl s)"
        using other Cons by (intro replace_amp_other) simp_all
      then have "replace_amp s = c # replace_amp cs"
        using Cons by simp
      then have "replace_ws (replace_amp s) = c # replace_ws (replace_amp cs)"
        using other by simp
      also have "replace_ws (replace_amp cs) = url_friendly cs"
        using IH short by blast
      finally show ?thesis
        using other Cons by (simp add: url_friendly_def)
    qed
  qed
qed

lemma unreserved_iff: "unreserved (uint u) \<longleftrightarrow> uriUnescaped u"
  unfolding unreserved_def uriUnescaped_def
  by (simp add: word_le_def word_uint_eq_iff) blast

lemma unescaped_not_surrogate:
  "uriUnescaped u \<Longrightarrow> \<not> isLeadingSurrogate u \<and> \<not> isTrailingSurrogate u"
  unfolding uriUnescaped_def isLeadingSurrogate_def isTrailingSurrogate_def
  by (auto simp: word_le_def)

lemma pair_not_unreserved:
  "isLeadingSurrogate u \<Longrightarrow> isTrailingSurrogate v \<Longrightarrow>
     \<not> unreserved (0x10000 + (uint u - 0xD800) * 0x400 + (uint v - 0xDC00))"
  unfolding unreserved_def isLeadingSurrogate_def isTrailingSurrogate_def
  by (auto simp: word_le_def)

lemma pair_code_point:
  "UTF16SurrogatePairToCodePoint u v = 0x10000 + (uint u - 0xD800) * 0x400 + (uint v - 0xDC00)"
  by (simp add: UTF16SurrogatePairToCodePoint_def)

lemma percent_encoded_Nil: "percent_encoded [] = Some []"
  by (simp add: percent_encoded_def)

lemma surrogates_disjoint: "isLeadingSurrogate u \<Longrightarrow> \<not> isTrailingSurrogate u"
  by (auto simp: isLeadingSurrogate_def isTrailingSurrogate_def word_le_def)

lemma percent_encoded_character_step:
  assumes "\<not> isLeadingSurrogate u" "\<not> isTrailingSurrogate u"
  shows "percent_encoded (u # us)
    = map_option (\<lambda>e. percent_encoded_character (uint u) @ e) (percent_encoded us)"
  using assms by (cases us) (simp_all add: percent_encoded_def option.map_comp comp_def)

lemma percent_encoded_pair_step:
  assumes "isLeadingSurrogate u" "isTrailingSurrogate v"
  shows "percent_encoded (u # v # us)
    = map_option (\<lambda>e. concat (map percent (utf8 (UTF16SurrogatePairToCodePoint u v))) @ e)
        (percent_encoded us)"
proof -
  have "percent_encoded_character (0x10000 + (uint u - 0xD800) * 0x400 + (uint v - 0xDC00))
      = concat (map percent (utf8 (UTF16SurrogatePairToCodePoint u v)))"
    using pair_not_unreserved [OF assms]
    by (simp only: percent_encoded_character_def pair_code_point if_False)
  with assms show ?thesis
    by (simp only: percent_encoded_def characters.simps simp_thms if_True option.map_comp comp_def
        list.map concat.simps)
qed

lemma percent_encoded_lone_trailing:
  assumes "isTrailingSurrogate u"
  shows "percent_encoded (u # us) = None"
  using assms surrogates_disjoint [of u] by (cases us) (auto simp: percent_encoded_def)

lemma percent_encoded_lone_leading:
  assumes "isLeadingSurrogate u" and "\<And>v rest. us = v # rest \<Longrightarrow> \<not> isTrailingSurrogate v"
  shows "percent_encoded (u # us) = None"
  using assms by (cases us) (auto simp: percent_encoded_def)

lemma encodeURIComponent_percent_encoded:
  "encodeURIComponent s = (case percent_encoded s of None \<Rightarrow> Inl URIError | Some e \<Rightarrow> Inr e)"
proof (induction s rule: length_induct)
  case (1 s)
  note IH = this
  show ?case
  proof (cases s)
    case Nil
    then show ?thesis
      by (simp add: percent_encoded_Nil)
  next
    case (Cons u us)
    have rest: "encodeURIComponent us
        = (case percent_encoded us of None \<Rightarrow> Inl URIError | Some e \<Rightarrow> Inr e)"
      using IH Cons by simp
    consider (keep) "uriUnescaped u"
      | (escape) "\<not> uriUnescaped u" "\<not> isLeadingSurrogate u" "\<not> isTrailingSurrogate u"
      | (lone_trail) "isTrailingSurrogate u"
      | (lead) "isLeadingSurrogate u"
      by blast
    then show ?thesis
    proof cases
      case keep
      note ns = unescaped_not_surrogate [OF keep]
      have "percent_encoded_character (uint u) = [u]"
        using keep by (simp add: percent_encoded_character_def unreserved_iff)
      with ns have "percent_encoded s = map_option (\<lambda>e. u # e) (percent_encoded us)"
        unfolding Cons by (simp add: percent_encoded_character_step)
      moreover have "encodeURIComponent s = map_sum id ((#) u) (encodeURIComponent us)"
        unfolding Cons using keep by simp
      ultimately show ?thesis
        unfolding rest by (simp split: option.splits)
    next
      case escape
      have "percent_encoded_character (uint u) = concat (map percent (utf8 (uint u)))"
        using escape(1) by (simp add: percent_encoded_character_def unreserved_iff)
      with escape have "percent_encoded s
          = map_option (\<lambda>e. concat (map percent (utf8 (uint u))) @ e) (percent_encoded us)"
        unfolding Cons by (simp add: percent_encoded_character_step)
      moreover have "encodeURIComponent s
          = map_sum id ((@) (concat (map percent (utf8 (uint u))))) (encodeURIComponent us)"
        unfolding Cons using escape by simp
      ultimately show ?thesis
        unfolding rest by (simp split: option.splits)
    next
      case lone_trail
      then have "\<not> uriUnescaped u" "\<not> isLeadingSurrogate u"
        using unescaped_not_surrogate [of u] surrogates_disjoint [of u] by auto
      with lone_trail have "encodeURIComponent s = Inl URIError"
        unfolding Cons by simp
      with percent_encoded_lone_trailing [OF lone_trail, of us] show ?thesis
        unfolding Cons by simp
    next
      case lead
      then have nu: "\<not> uriUnescaped u" "\<not> isTrailingSurrogate u"
        using unescaped_not_surrogate [of u] surrogates_disjoint [of u] by auto
      show ?thesis
      proof (cases us)
        case Nil
        with lead nu have "encodeURIComponent s = Inl URIError"
          unfolding Cons by simp
        moreover have "percent_encoded (u # us) = None"
          using lead Nil by (intro percent_encoded_lone_leading) simp_all
        ultimately show ?thesis
          unfolding Cons by simp
      next
        case (Cons v rest')
        note us = this
        show ?thesis
        proof (cases "isTrailingSurrogate v")
          case True
          have tail: "encodeURIComponent rest'
              = (case percent_encoded rest' of None \<Rightarrow> Inl URIError | Some e \<Rightarrow> Inr e)"
            using IH \<open>s = u # us\<close> us by simp
          have "encodeURIComponent s
              = map_sum id ((@) (concat (map percent (utf8 (UTF16SurrogatePairToCodePoint u v)))))
                  (encodeURIComponent rest')"
            unfolding \<open>s = u # us\<close> us using lead nu True by simp
          with percent_encoded_pair_step [OF lead True, of rest'] show ?thesis
            unfolding \<open>s = u # us\<close> us tail by (simp split: option.splits)
        next
          case False
          with lead nu have "encodeURIComponent s = Inl URIError"
            unfolding \<open>s = u # us\<close> us by simp
          moreover have "percent_encoded (u # us) = None"
            using lead False us by (intro percent_encoded_lone_leading) simp_all
          ultimately show ?thesis
            unfolding \<open>s = u # us\<close> by simp
        qed
      qed
    qed
  qed
qed

lemma split_on_not_Nil: "split_on c s \<noteq> []"
  by (induction s) (auto split: list.splits)

lemma split_on_no_separator: "seg \<in> set (split_on c s) \<Longrightarrow> c \<notin> set seg"
proof (induction s arbitrary: seg)
  case Nil
  then show ?case by simp
next
  case (Cons x xs)
  then show ?case
    by (cases "split_on c xs") (auto split: if_splits)
qed

lemma split_on_units: "seg \<in> set (split_on c s) \<Longrightarrow> u \<in> set seg \<Longrightarrow> u \<in> set s"
proof (induction s arbitrary: seg)
  case Nil
  then show ?case by simp
next
  case (Cons x xs)
  show ?case
  proof (cases "x = c")
    case True
    with Cons.prems have "seg \<in> set (split_on c xs)"
      by auto
    with Cons.IH Cons.prems(2) show ?thesis
      by auto
  next
    case False
    from split_on_not_Nil [of c xs] obtain first others where parts: "split_on c xs = first # others"
      by (cases "split_on c xs") auto
    with False Cons.prems(1) consider "seg = x # first" | "seg \<in> set others"
      by auto
    then show ?thesis
    proof cases
      case 1
      with Cons.prems(2) consider "u = x" | "u \<in> set first"
        by auto
      then show ?thesis
      proof cases
        case 1
        then show ?thesis by simp
      next
        case 2
        with Cons.IH [of first] parts show ?thesis
          by simp
      qed
    next
      case 2
      with Cons.IH [of seg] parts Cons.prems(2) show ?thesis
        by simp
    qed
  qed
qed

lemma split_on_append_separator:
  "c \<notin> set seg \<Longrightarrow> split_on c (seg @ c # rest) = seg # split_on c rest"
  by (induction seg) auto

lemma split_on_segment: "c \<notin> set seg \<Longrightarrow> split_on c seg = [seg]"
  by (induction seg) auto

lemma split_on_join_with:
  "segments \<noteq> [] \<Longrightarrow> \<forall>seg \<in> set segments. c \<notin> set seg \<Longrightarrow>
     split_on c (join_with c segments) = segments"
proof (induction c segments rule: join_with.induct)
  case (1 sep)
  then show ?case by simp
next
  case (2 sep segment)
  then show ?case by (simp add: split_on_segment)
next
  case (3 sep segment v va)
  then show ?case
    by (simp add: split_on_append_separator)
qed

lemma pieces_units: "Unit u \<in> set (pieces s) \<Longrightarrow> u \<in> set s"
proof (induction s rule: pieces.induct)
  case 1
  then show ?case by simp
next
  case (2 c cs)
  then show ?case
    by (auto split: if_splits dest: set_dropWhileD)
qed

lemma after_blank_subset: "set (after_blank ps) \<subseteq> set ps"
  by (cases ps rule: after_blank.cases) auto

lemma and_tokens_units: "Unit u \<in> set (and_tokens ps) \<Longrightarrow> Unit u \<in> set ps"
proof (induction ps rule: and_tokens.induct)
  case (2 v ps)
  then show ?case
    using after_blank_subset [of ps] by (auto split: if_splits)
next
  case (3 v ps)
  then show ?case
    using after_blank_subset [of ps] by (auto split: if_splits)
qed auto

lemma url_friendly_units:
  "set (url_friendly s) \<subseteq> set s \<union> set (utf16 ''--and--'') \<union> {0x2D}"
proof
  fix u
  assume "u \<in> set (url_friendly s)"
  then obtain p where p: "p \<in> set (and_tokens (pieces s))" and u: "u \<in> set (piece_text p)"
    by (auto simp: url_friendly_def)
  show "u \<in> set s \<union> set (utf16 ''--and--'') \<union> {0x2D}"
  proof (cases p)
    case Blank
    with u show ?thesis
      by (simp add: utf16_hyphen)
  next
    case (Unit v)
    with p u have "Unit u \<in> set (and_tokens (pieces s))"
      by simp
    then have "u \<in> set s"
      by (rule pieces_units [OF and_tokens_units])
    then show ?thesis
      by simp
  next
    case AndToken
    with u show ?thesis
      by simp
  qed
qed

lemma url_friendly_no_slash:
  assumes "0x2F \<notin> set seg"
  shows "0x2F \<notin> set (url_friendly seg)"
  using url_friendly_units [of seg] assms by (auto simp: utf16_and)

lemma map_encodeURIComponent_those:
  "map_encodeURIComponent segments =
     (case those (map percent_encoded segments) of None \<Rightarrow> Inl URIError | Some encoded \<Rightarrow> Inr encoded)"
proof (induction segments)
  case Nil
  show ?case by simp
next
  case (Cons segment segments)
  then show ?case
    by (cases "encodeURIComponent segment")
      (auto simp: encodeURIComponent_percent_encoded split: option.splits)
qed

lemma generatePublishedUrl_publicUrl:
  "generatePublishedUrl baseUrl' originalPath = publicUrl baseUrl' originalPath"
proof -
  let ?segments = "map url_friendly (segments_of (without_md originalPath))"
  have "?segments \<noteq> []"
    using split_on_not_Nil [of "0x2F" "without_md originalPath"]
    by (simp add: split_on_segments_of)
  moreover have "\<forall>seg \<in> set ?segments. 0x2F \<notin> set seg"
  proof
    fix seg
    assume "seg \<in> set ?segments"
    then obtain part where "part \<in> set (split_on 0x2F (without_md originalPath))"
      and seg: "seg = url_friendly part"
      by (auto simp: split_on_segments_of)
    then have "0x2F \<notin> set part"
      by (simp add: split_on_no_separator)
    then show "0x2F \<notin> set seg"
      unfolding seg by (rule url_friendly_no_slash)
  qed
  ultimately have "split_on 0x2F (join_with 0x2F ?segments) = ?segments"
    by (rule split_on_join_with)
  then show ?thesis
    by (simp add: generatePublishedUrl_def publicUrl_def Let_def replace_segment_url_friendly
        strip_md_without_md split_on_segments_of [symmetric] map_encodeURIComponent_those comp_def
        split: option.splits)
qed

lemma utf16_unit: "u \<in> set (utf16 s) \<Longrightarrow> uint u < 256"
proof -
  assume "u \<in> set (utf16 s)"
  then obtain c where u: "u = of_char c"
    by (auto simp: utf16_def)
  have "u = word_of_nat (of_char c)"
    unfolding u by (simp add: of_nat_of_char)
  then have "unat u = of_char c mod 2 ^ 16"
    by (simp add: unat_of_nat)
  moreover have "(of_char c :: nat) < 256"
    by (rule nat_of_char_less_256)
  ultimately have "unat u < 256"
    by simp
  moreover have "uint u = int (unat u)"
    by simp
  ultimately show ?thesis
    by linarith
qed

text \<open>
  A string without surrogates is percent-encoded; the strings of the other sections have
  none, and neither have the segments made of them.
\<close>

lemma percent_encoded_without_surrogates:
  "(\<And>u. u \<in> set s \<Longrightarrow> \<not> isLeadingSurrogate u \<and> \<not> isTrailingSurrogate u) \<Longrightarrow>
     percent_encoded s \<noteq> None"
proof (induction s)
  case Nil
  show ?case
    by (simp add: percent_encoded_Nil)
next
  case (Cons u us)
  then show ?case
    by (simp add: percent_encoded_character_step)
qed

lemma those_map_defined: "(\<And>x. x \<in> set xs \<Longrightarrow> f x \<noteq> None) \<Longrightarrow> those (map f xs) \<noteq> None"
  by (induction xs) (auto split: option.splits)

lemma small_unit_not_surrogate:
  "uint u < 256 \<Longrightarrow> \<not> isLeadingSurrogate u \<and> \<not> isTrailingSurrogate u"
  by (auto simp: isLeadingSurrogate_def isTrailingSurrogate_def word_le_def)

lemma without_md_units: "set (without_md p) \<subseteq> set p"
  unfolding strip_md_without_md [symmetric] strip_md_def
  by (auto dest: in_set_takeD)

lemma generatePublishedUrl_utf16_returns:
  "\<exists>url. generatePublishedUrl (utf16 b) (utf16 p) = Inr url"
proof -
  have "percent_encoded (url_friendly segment) \<noteq> None"
    if "segment \<in> set (segments_of (without_md (utf16 p)))" for segment
  proof (rule percent_encoded_without_surrogates)
    fix u
    assume "u \<in> set (url_friendly segment)"
    with url_friendly_units [of segment]
    consider "u \<in> set segment" | "u \<in> set (utf16 ''--and--'')" | "u = 0x2D"
      by auto
    then have "uint u < 256"
    proof cases
      case 1
      with that have "u \<in> set (without_md (utf16 p))"
        unfolding split_on_segments_of [symmetric] by (rule split_on_units)
      with without_md_units [of "utf16 p"] show ?thesis
        by (auto intro: utf16_unit)
    next
      case 2
      then show ?thesis
        by (rule utf16_unit)
    next
      case 3
      then show ?thesis
        by simp
    qed
    then show "\<not> isLeadingSurrogate u \<and> \<not> isTrailingSurrogate u"
      by (rule small_unit_not_surrogate)
  qed
  then have "those (map (\<lambda>segment. percent_encoded (url_friendly segment))
      (segments_of (without_md (utf16 p)))) \<noteq> None"
    by (rule those_map_defined)
  then show ?thesis
    unfolding generatePublishedUrl_publicUrl publicUrl_def by auto
qed

text \<open>
  C6. \<^verbatim>\<open>generatePublishedUrl\<close> computes the public URL of the specification wherever the
  source path has one. For every base URL and every source path it returns what the
  specification words: none without a base URL, and otherwise the base URL, a slash, and
  the segments of the source path without its trailing \<^verbatim>\<open>.md\<close>, each with its ampersands
  and the white space around them replaced by \<^verbatim>\<open>--and--\<close>, its remaining white space runs
  by hyphens, and then percent-encoded, joined by slashes; but for a source path with a
  surrogate that has no partner, which has no percent-encoding, it throws \<^verbatim>\<open>URIError\<close>
  and returns no URL. The target folder path has no influence. The examples: the source
  path \<^verbatim>\<open>A & B/note name.md\<close> with the base URL \<^verbatim>\<open>http://x\<close>; the path of the README, with
  Korean letters; reserved characters; white space runs, with white space beyond
  code unit 255, and ampersands in a row; \<^verbatim>\<open>.md\<close> inside the path and twice at its end; a
  path that is \<^verbatim>\<open>.md\<close> only; the marks that are kept; a letter of two octets; a character
  of two code units; and a surrogate without partner.
\<close>

theorem generatePublishedUrl_refines_publicUrl:
  "generatePublishedUrl baseUrl' originalPath = publicUrl baseUrl' originalPath
   \<and> generatePublishedUrl [] originalPath = Inr None
   \<and> publishedUrl (s\<lparr>targetFolderPath := target\<rparr>) file = publishedUrl s file
   \<and> publishedUrl (default_settings\<lparr>baseUrl := ''http://x'', targetFolderPath := ''pub''\<rparr>)
        ampersand_note = Some ''http://x/A--and--B/note-name''
   \<and> generatePublishedUrl (utf16 ''http://x'') (utf16 ''A & B/note name.md'')
       = Inr (Some (utf16 ''http://x/A--and--B/note-name''))
   \<and> generatePublishedUrl (utf16 ''http://your-server.com'')
        (utf16 ''100_UnrealEngine/''
         @ [0xC5B8, 0xB9AC, 0xC5BC, 0x20, 0xCDA9, 0xB3CC, 0x20, 0xC2DC, 0xC2A4, 0xD15C]
         @ utf16 '' & Hit Location.md'')
       = Inr (Some (utf16 (''http://your-server.com/100_UnrealEngine/''
           @ ''%EC%96%B8%EB%A6%AC%EC%96%BC-%EC%B6%A9%EB%8F%8C-%EC%8B%9C%EC%8A%A4%ED%85%9C''
           @ ''--and--Hit-Location'')))
   \<and> generatePublishedUrl (utf16 ''http://x'') (utf16 ''a?b#c%d/e+f=g.md'')
       = Inr (Some (utf16 ''http://x/a%3Fb%23c%25d/e%2Bf%3Dg''))
   \<and> generatePublishedUrl (utf16 ''http://x'')
        (utf16 ''a '' @ [0x09, 0xA0] @ utf16 ''b'' @ [0x3000, 0x2003] @ utf16 ''c  &'' @ [0x09]
         @ utf16 ''& d'')
       = Inr (Some (utf16 ''http://x/a-b-c--and----and--d''))
   \<and> generatePublishedUrl (utf16 ''http://x'') (utf16 ''x.md/y.md.md'')
       = Inr (Some (utf16 ''http://x/x.md/y.md''))
   \<and> generatePublishedUrl (utf16 ''http://x'') (utf16 ''.md'') = Inr (Some (utf16 ''http://x/''))
   \<and> generatePublishedUrl (utf16 ''http://x'') (utf16 ''-_.!~*'' @ [0x27] @ utf16 ''()A&B'')
       = Inr (Some (utf16 ''http://x/-_.!~*'' @ [0x27] @ utf16 ''()A--and--B''))
   \<and> generatePublishedUrl (utf16 ''http://x'') (utf16 ''caf'' @ [0xE9] @ utf16 ''.md'')
       = Inr (Some (utf16 ''http://x/caf%C3%A9''))
   \<and> generatePublishedUrl (utf16 ''http://x'') ([0xD83D, 0xDE00] @ utf16 ''.md'')
       = Inr (Some (utf16 ''http://x/%F0%9F%98%80''))
   \<and> generatePublishedUrl (utf16 ''http://x'') (utf16 ''a/b'' @ [0xD83D] @ utf16 ''.md'')
       = Inl URIError"
proof -
  have "generatePublishedUrl [] originalPath = Inr None"
    by (simp add: generatePublishedUrl_def)
  moreover have "publishedUrl (s\<lparr>targetFolderPath := target\<rparr>) file = publishedUrl s file"
    by (simp add: publishedUrl_def)
  moreover have
    "publishedUrl (default_settings\<lparr>baseUrl := ''http://x'', targetFolderPath := ''pub''\<rparr>)
        ampersand_note = Some ''http://x/A--and--B/note-name''"
    by code_simp
  moreover have "generatePublishedUrl (utf16 ''http://x'') (utf16 ''A & B/note name.md'')
       = Inr (Some (utf16 ''http://x/A--and--B/note-name''))"
    by code_simp
  moreover have "generatePublishedUrl (utf16 ''http://your-server.com'')
        (utf16 ''100_UnrealEngine/''
         @ [0xC5B8, 0xB9AC, 0xC5BC, 0x20, 0xCDA9, 0xB3CC, 0x20, 0xC2DC, 0xC2A4, 0xD15C]
         @ utf16 '' & Hit Location.md'')
       = Inr (Some (utf16 (''http://your-server.com/100_UnrealEngine/''
           @ ''%EC%96%B8%EB%A6%AC%EC%96%BC-%EC%B6%A9%EB%8F%8C-%EC%8B%9C%EC%8A%A4%ED%85%9C''
           @ ''--and--Hit-Location'')))"
    by code_simp
  moreover have "generatePublishedUrl (utf16 ''http://x'') (utf16 ''a?b#c%d/e+f=g.md'')
       = Inr (Some (utf16 ''http://x/a%3Fb%23c%25d/e%2Bf%3Dg''))"
    by code_simp
  moreover have "generatePublishedUrl (utf16 ''http://x'')
        (utf16 ''a '' @ [0x09, 0xA0] @ utf16 ''b'' @ [0x3000, 0x2003] @ utf16 ''c  &'' @ [0x09]
         @ utf16 ''& d'')
       = Inr (Some (utf16 ''http://x/a-b-c--and----and--d''))"
    by code_simp
  moreover have "generatePublishedUrl (utf16 ''http://x'') (utf16 ''x.md/y.md.md'')
       = Inr (Some (utf16 ''http://x/x.md/y.md''))"
    by code_simp
  moreover have
    "generatePublishedUrl (utf16 ''http://x'') (utf16 ''.md'') = Inr (Some (utf16 ''http://x/''))"
    by code_simp
  moreover have
    "generatePublishedUrl (utf16 ''http://x'') (utf16 ''-_.!~*'' @ [0x27] @ utf16 ''()A&B'')
       = Inr (Some (utf16 ''http://x/-_.!~*'' @ [0x27] @ utf16 ''()A--and--B''))"
    by code_simp
  moreover have "generatePublishedUrl (utf16 ''http://x'') (utf16 ''caf'' @ [0xE9] @ utf16 ''.md'')
       = Inr (Some (utf16 ''http://x/caf%C3%A9''))"
    by code_simp
  moreover have "generatePublishedUrl (utf16 ''http://x'') ([0xD83D, 0xDE00] @ utf16 ''.md'')
       = Inr (Some (utf16 ''http://x/%F0%9F%98%80''))"
    by code_simp
  moreover have
    "generatePublishedUrl (utf16 ''http://x'') (utf16 ''a/b'' @ [0xD83D] @ utf16 ''.md'')
       = Inl URIError"
    by code_simp
  ultimately show ?thesis
    using generatePublishedUrl_publicUrl [of baseUrl' originalPath]
    by blast
qed

text \<open>
  The claim as first stated fails for a source path with a surrogate that has no partner:
  with the base URL \<^verbatim>\<open>http://x\<close> configured, the path made of the letters \<^verbatim>\<open>note\<close>, a blank,
  the code unit D83D and \<^verbatim>\<open>.md\<close> gives no URL, \<^verbatim>\<open>encodeURIComponent\<close> throws.
\<close>

theorem unpaired_surrogate_throws_counterexample:
  "utf16 ''http://x'' \<noteq> []
   \<and> generatePublishedUrl (utf16 ''http://x'') (utf16 ''note '' @ [0xD83D] @ utf16 ''.md'')
       = Inl URIError
   \<and> encodeURIComponent (utf16 ''note-'' @ [0xD83D]) = Inl URIError
   \<and> (\<nexists>url. generatePublishedUrl (utf16 ''http://x'') (utf16 ''note '' @ [0xD83D] @ utf16 ''.md'')
        = Inr url)"
proof -
  have "utf16 ''http://x'' \<noteq> []"
    by (simp add: utf16_def)
  moreover have
    "generatePublishedUrl (utf16 ''http://x'') (utf16 ''note '' @ [0xD83D] @ utf16 ''.md'')
       = Inl URIError"
    by code_simp
  moreover have "encodeURIComponent (utf16 ''note-'' @ [0xD83D]) = Inl URIError"
    by code_simp
  ultimately show ?thesis
    by simp
qed

section \<open>The rewrite pass on drawing links\<close>

lemma next_free_name_free:
  "imageFolderPath @ ''/'' @ next_free_name paths imageFolderPath baseName counter \<notin> set paths"
proof (induction paths imageFolderPath baseName counter rule: next_free_name.induct)
  case (1 paths imageFolderPath baseName counter)
  then show ?case
    by (subst next_free_name.simps) simp
qed

lemma image_file_name_free:
  "imageFolderPath @ ''/'' @ image_file_name paths imageFolderPath baseName \<notin> set paths"
  using next_free_name_free [of imageFolderPath paths baseName 1]
  by (simp add: image_file_name_def)

lemma next_free_name_not_Nil: "next_free_name paths imageFolderPath baseName counter \<noteq> []"
proof (induction paths imageFolderPath baseName counter rule: next_free_name.induct)
  case (1 paths imageFolderPath baseName counter)
  then show ?case
    by (subst next_free_name.simps) (simp add: numbered_def)
qed

lemma exported_name_not_Nil:
  "exportExcalidrawToImage w targetFolder paths fileName currentFile = (Some imageFileName, paths')
     \<Longrightarrow> imageFileName \<noteq> []"
  by (auto simp: exportExcalidrawToImage_def image_file_name_def next_free_name_not_Nil Let_def
      split: option.splits sum.splits if_splits)

lemma get_substitution_plain:
  "CHR ''$'' \<notin> set xs \<Longrightarrow>
     get_substitution matched front back (xs @ ys) = xs @ get_substitution matched front back ys"
proof (induction xs)
  case Nil
  then show ?case by simp
next
  case (Cons c cs)
  then show ?case
    by (cases "cs @ ys") auto
qed

text \<open>
  C7. The rewrite pass replaces a drawing link by an image link, but not always as the
  claim says. The replacement is made by \<^verbatim>\<open>processedContent.replace(fullMatch, imageLink)\<close>,
  which reads the dollar patterns of the replacement text and replaces the first
  occurrence of the text of the match, wherever it stands. In every vault in which the
  link text \<^verbatim>\<open>sketch.excalidraw\<close> counts as a drawing and its export gives an image name
  without dollar sign, the display text \<^verbatim>\<open>a$$b\<close> of a link to it comes out as \<^verbatim>\<open>a$b\<close>;
  and when the text of a link to it also stands inside the display text of an earlier
  link to a note A that is no drawing, the link to A is rewritten and the link to the
  drawing is left as it is.
\<close>

theorem rewrite_pass_alters_display_text:
  assumes "util_isExcalidrawFile w ''sketch.excalidraw'' currentFile"
    and "exportExcalidrawToImage w targetFolder paths ''sketch.excalidraw'' currentFile
          = (Some imageFileName, paths')"
    and "CHR ''$'' \<notin> set imageFileName"
  shows "processNoteContent w targetFolder paths ''see [[sketch.excalidraw|a$$b]]'' currentFile
      = (''see ![['' @ imageFileName @ ''|a$b]]'', paths')
    \<and> (\<not> util_isExcalidrawFile w ''A'' currentFile \<longrightarrow>
         processNoteContent w targetFolder paths
           ''[[A|[[sketch.excalidraw]] [[sketch.excalidraw]]'' currentFile
         = (''[[A|![['' @ imageFileName @ '']] [[sketch.excalidraw]]'', paths'))"
proof -
  from assms(2) have ne: "imageFileName \<noteq> []"
    by (rule exported_name_not_Nil)
  have scan1: "scan_embeds ''see [[sketch.excalidraw|a$$b]]''
      = [(''[[sketch.excalidraw|a$$b]]'', ''sketch.excalidraw'', Some ''a$$b'')]"
    by code_simp
  have find1: "find_first ''see [[sketch.excalidraw|a$$b]]'' ''[[sketch.excalidraw|a$$b]]''
      = Some (''see '', [])"
    by code_simp
  from assms(3) have plain1: "CHR ''$'' \<notin> set (''![['' @ imageFileName @ ''|a'')"
    by simp
  have subst1: "get_substitution ''[[sketch.excalidraw|a$$b]]'' ''see '' []
        (''![['' @ imageFileName @ ''|'' @ ''a$$b'' @ '']]'')
      = ''![['' @ imageFileName @ ''|a$b]]''"
    using get_substitution_plain [OF plain1, of "''[[sketch.excalidraw|a$$b]]''" "''see ''" "[]" "''$$b]]''"]
    by simp
  have replace1: "replace_first ''see [[sketch.excalidraw|a$$b]]'' ''[[sketch.excalidraw|a$$b]]''
        (''![['' @ imageFileName @ ''|'' @ ''a$$b'' @ '']]'')
      = ''see ![['' @ imageFileName @ ''|a$b]]''"
    unfolding replace_first_def find1 using subst1 by simp
  have "processNoteContent w targetFolder paths ''see [[sketch.excalidraw|a$$b]]'' currentFile
      = rewrite_match w targetFolder currentFile
          (''[[sketch.excalidraw|a$$b]]'', ''sketch.excalidraw'', Some ''a$$b'')
          (''see [[sketch.excalidraw|a$$b]]'', paths)"
    unfolding processNoteContent_def scan1 by simp
  also have "\<dots> = (replace_first ''see [[sketch.excalidraw|a$$b]]'' ''[[sketch.excalidraw|a$$b]]''
        (''![['' @ imageFileName @ ''|'' @ ''a$$b'' @ '']]''), paths')"
    unfolding rewrite_match_def using assms(1,2) ne by simp
  finally have first: "processNoteContent w targetFolder paths ''see [[sketch.excalidraw|a$$b]]'' currentFile
      = (''see ![['' @ imageFileName @ ''|a$b]]'', paths')"
    unfolding replace1 .
  have scan2: "scan_embeds ''[[A|[[sketch.excalidraw]] [[sketch.excalidraw]]''
      = [(''[[A|[[sketch.excalidraw]]'', ''A'', Some ''[[sketch.excalidraw''),
         (''[[sketch.excalidraw]]'', ''sketch.excalidraw'', None)]"
    by code_simp
  have find2: "find_first ''[[A|[[sketch.excalidraw]] [[sketch.excalidraw]]'' ''[[sketch.excalidraw]]''
      = Some (''[[A|'', '' [[sketch.excalidraw]]'')"
    by code_simp
  from assms(3) have plain2: "CHR ''$'' \<notin> set (''![['' @ imageFileName @ '']]'')"
    by simp
  have subst2: "get_substitution ''[[sketch.excalidraw]]'' ''[[A|'' '' [[sketch.excalidraw]]''
        (''![['' @ imageFileName @ '']]'')
      = ''![['' @ imageFileName @ '']]''"
    using get_substitution_plain [OF plain2, of "''[[sketch.excalidraw]]''" "''[[A|''"
        "'' [[sketch.excalidraw]]''" "[]"]
    by simp
  have replace2: "replace_first ''[[A|[[sketch.excalidraw]] [[sketch.excalidraw]]''
        ''[[sketch.excalidraw]]'' (''![['' @ imageFileName @ '']]'')
      = ''[[A|![['' @ imageFileName @ '']] [[sketch.excalidraw]]''"
    unfolding replace_first_def find2 using subst2 by simp
  have second: "processNoteContent w targetFolder paths
           ''[[A|[[sketch.excalidraw]] [[sketch.excalidraw]]'' currentFile
         = (''[[A|![['' @ imageFileName @ '']] [[sketch.excalidraw]]'', paths')"
    if other: "\<not> util_isExcalidrawFile w ''A'' currentFile"
  proof -
    have "processNoteContent w targetFolder paths
           ''[[A|[[sketch.excalidraw]] [[sketch.excalidraw]]'' currentFile
        = rewrite_match w targetFolder currentFile (''[[sketch.excalidraw]]'', ''sketch.excalidraw'', None)
            (rewrite_match w targetFolder currentFile
               (''[[A|[[sketch.excalidraw]]'', ''A'', Some ''[[sketch.excalidraw'')
               (''[[A|[[sketch.excalidraw]] [[sketch.excalidraw]]'', paths))"
      unfolding processNoteContent_def scan2 by simp
    also have "rewrite_match w targetFolder currentFile
               (''[[A|[[sketch.excalidraw]]'', ''A'', Some ''[[sketch.excalidraw'')
               (''[[A|[[sketch.excalidraw]] [[sketch.excalidraw]]'', paths)
        = (''[[A|[[sketch.excalidraw]] [[sketch.excalidraw]]'', paths)"
      unfolding rewrite_match_def using other by simp
    also have "rewrite_match w targetFolder currentFile (''[[sketch.excalidraw]]'', ''sketch.excalidraw'', None)
            (''[[A|[[sketch.excalidraw]] [[sketch.excalidraw]]'', paths)
        = (replace_first ''[[A|[[sketch.excalidraw]] [[sketch.excalidraw]]''
             ''[[sketch.excalidraw]]'' (''![['' @ imageFileName @ '']]''), paths')"
      unfolding rewrite_match_def using assms(1,2) ne by simp
    finally show ?thesis
      unfolding replace2 .
  qed
  from first second show ?thesis
    by blast
qed

text \<open>
  The vault with the drawing \<^verbatim>\<open>sketch.excalidraw\<close>, the target folder \<^verbatim>\<open>pub\<close> and no
  image yet.
\<close>

theorem rewrite_pass_alters_display_text_witness:
  "util_isExcalidrawFile drawing_vault ''sketch.excalidraw'' (md_note ''root'')
   \<and> exportExcalidrawToImage drawing_vault ''pub'' [] ''sketch.excalidraw'' (md_note ''root'')
       = (Some ''sketch.png'', [''pub'', ''pub/_Image'', ''pub/_Image/sketch.png''])
   \<and> CHR ''$'' \<notin> set ''sketch.png''
   \<and> \<not> util_isExcalidrawFile drawing_vault ''A'' (md_note ''root'')
   \<and> processNoteContent drawing_vault ''pub'' [] ''see [[sketch.excalidraw|a$$b]]'' (md_note ''root'')
       = (''see ![[sketch.png|a$b]]'', [''pub'', ''pub/_Image'', ''pub/_Image/sketch.png''])
   \<and> processNoteContent drawing_vault ''pub'' []
        ''[[A|[[sketch.excalidraw]] [[sketch.excalidraw]]'' (md_note ''root'')
       = (''[[A|![[sketch.png]] [[sketch.excalidraw]]'',
          [''pub'', ''pub/_Image'', ''pub/_Image/sketch.png''])"
proof -
  have a: "util_isExcalidrawFile drawing_vault ''sketch.excalidraw'' (md_note ''root'')"
    by code_simp
  have b: "exportExcalidrawToImage drawing_vault ''pub'' [] ''sketch.excalidraw'' (md_note ''root'')
       = (Some ''sketch.png'', [''pub'', ''pub/_Image'', ''pub/_Image/sketch.png''])"
    by code_simp
  have c: "CHR ''$'' \<notin> set ''sketch.png''"
    by simp
  have d: "\<not> util_isExcalidrawFile drawing_vault ''A'' (md_note ''root'')"
    by code_simp
  from rewrite_pass_alters_display_text [OF a b c] a b c d show ?thesis
    by simp
qed

text \<open>
  Where neither happens the pass does what the claim says: image links for both forms
  of link, the display text kept, a numbered name on collision, other links untouched.
\<close>

lemma rewrite_pass_example:
  "processNoteContent drawing_vault ''pub'' [''pub'', ''pub/_Image'', ''pub/_Image/sketch.png'']
     ''see [[sketch.excalidraw]], ![[sketch.excalidraw|big]] and [[A]], [[missing]]'' (md_note ''root'')
   = (''see ![[sketch_1.png]], ![[sketch_2.png|big]] and [[A]], [[missing]]'',
      [''pub'', ''pub/_Image'', ''pub/_Image/sketch.png'', ''pub/_Image/sketch_1.png'',
       ''pub/_Image/sketch_2.png''])"
  by code_simp

text \<open>
  A drawing in the format of a note is exported only when its compressed block
  decompresses: the text between the fences goes to the library without its line breaks.
\<close>

lemma decompress_compressed_block:
  "decompressExcalidrawContent w
     (''---'' @ [CHR 0x0A] @ ''excalidraw-plugin: parsed'' @ [CHR 0x0A] @ ''---'' @ [CHR 0x0A]
      @ ''# Excalidraw Data'' @ [CHR 0x0A] @ ''## Drawing'' @ [CHR 0x0A]
      @ backticks @ ''compressed-json'' @ [CHR 0x0A] @ ''N4Ig'' @ [CHR 0x0A] @ ''LgA='' @ [CHR 0x0A]
      @ backticks @ [CHR 0x0A] @ ''%%'')
   = LZString_decompressFromBase64 w ''N4IgLgA=''"
proof -
  have "first_match drawing_compressed_at
     (''---'' @ [CHR 0x0A] @ ''excalidraw-plugin: parsed'' @ [CHR 0x0A] @ ''---'' @ [CHR 0x0A]
      @ ''# Excalidraw Data'' @ [CHR 0x0A] @ ''## Drawing'' @ [CHR 0x0A]
      @ backticks @ ''compressed-json'' @ [CHR 0x0A] @ ''N4Ig'' @ [CHR 0x0A] @ ''LgA='' @ [CHR 0x0A]
      @ backticks @ [CHR 0x0A] @ ''%%'')
    = Some (''N4Ig'' @ [CHR 0x0A] @ ''LgA='' @ [CHR 0x0A])"
    by code_simp
  then show ?thesis
    by (simp add: decompressExcalidrawContent_def)
qed

end
